theory Spec2Isabelle
  imports Main "HOL-Library.Word"
begin

section \<open>Machine integers, buffers and memory accesses\<close>

text \<open>
  The kernels run on a 32-bit RISC-V target. \<open>uint32_t\<close>, \<open>int\<close> and \<open>int32_t\<close> values are
  32-bit words, \<open>int16_t\<close> values are 16-bit words. Addition, subtraction and multiplication
  on words wrap modulo \<open>2 ^ 32\<close>; for the signed types this is the two's complement result
  the target computes for the element arithmetic (ISO C leaves signed overflow undefined).
  Comparisons of the loop counters are unsigned in all three kernels: in the complex kernel
  the counters are declared \<open>int\<close> and are compared with \<open>uint32_t\<close> bounds, which converts
  them to unsigned, and the index arithmetic they enter is unsigned as well. The increment
  \<open>n++\<close> or \<open>o++\<close> of such an \<open>int\<close> counter at \<open>INT_MAX\<close> is a signed overflow that compilers
  do exploit; it is an outcome of its own, \<open>Signed_overflow\<close>. The row counter \<open>m\<close> of the
  complex kernel is advanced by \<open>m += nPE\<close>, an unsigned addition converted back to \<open>int\<close>,
  which keeps the 32 bits. \<open>core_id\<close> is an \<open>int\<close> assigned to the row counter, and is given
  here as the 32-bit value of that counter.

  A buffer is what the C code can observe of it: the element found at each unsigned 32-bit
  index. The pointers of a descriptor are \<open>__restrict__\<close>, so the two inputs and the
  output are three separate buffers.
\<close>

type_synonym u32 = "32 word"
type_synonym i32 = "32 word"
type_synonym i16 = "16 word"

text \<open>
  Every array access of a kernel is logged, in program order: a load from \<open>pSrcA\<close>, a load
  from \<open>pSrcB\<close>, or a store to the destination, each with the index used.
\<close>

datatype access = LoadA u32 | LoadB u32 | Store u32

section \<open>The loops\<close>

text \<open>
  \<^verbatim>\<open>for (i = i0; i < B; i++) body\<close> with unsigned 32-bit \<open>i\<close> and \<open>B\<close>. The counter cannot
  wrap: \<open>i < B\<close> leaves room for \<open>i + 1\<close>.
\<close>

function for_loop :: "(u32 \<Rightarrow> 's \<Rightarrow> 's) \<Rightarrow> u32 \<Rightarrow> u32 \<Rightarrow> 's \<Rightarrow> 's" where
  "for_loop body B i s = (if i < B then for_loop body B (i + 1) (body i s) else s)"
  by pat_completeness auto
termination
proof (relation "measure (\<lambda>(body, B, i, s). unat B - unat i)")
  show "wf (measure (\<lambda>(body :: u32 \<Rightarrow> 's \<Rightarrow> 's, B :: u32, i :: u32, s :: 's). unat B - unat i))"
    by simp
next
  fix body :: "u32 \<Rightarrow> 's \<Rightarrow> 's" and B i :: u32 and s :: 's
  assume "i < B"
  then have "unat i < unat B"
    by (simp add: word_less_nat_alt)
  moreover have "unat B < 2 ^ LENGTH(32)"
    by (rule unsigned_less)
  ultimately have "unat (i + 1) = unat i + 1" and "unat i < unat B"
    by (simp_all add: unat_plus_if')
  then show "((body, B, i + 1, body i s), (body, B, i, s))
      \<in> measure (\<lambda>(body, B, i, s). unat B - unat i)"
    by simp
qed

declare for_loop.simps [simp del]

text \<open>
  \<^verbatim>\<open>for (int i = i0; i < B; i++) body\<close> with a signed \<open>int\<close> counter and an unsigned 32-bit
  bound, as in the complex kernel. The comparison is unsigned. When the body has run with
  \<open>i = INT_MAX\<close>, the increment overflows and the behaviour of the program is undefined.
  The body may itself end in undefined behaviour, which ends the loop.
\<close>

datatype undefined_behaviour = Signed_overflow

function for_loop_int ::
  "(u32 \<Rightarrow> 's \<Rightarrow> undefined_behaviour + 's) \<Rightarrow> u32 \<Rightarrow> u32 \<Rightarrow> 's \<Rightarrow> undefined_behaviour + 's" where
  "for_loop_int body B i s =
     (if i < B then
        (case body i s of
           Inl e \<Rightarrow> Inl e
         | Inr s' \<Rightarrow> if i = 0x7FFFFFFF then Inl Signed_overflow
                    else for_loop_int body B (i + 1) s')
      else Inr s)"
  by pat_completeness auto
termination
proof (relation "measure (\<lambda>(body, B, i, s). unat B - unat i)")
  show "wf (measure (\<lambda>(body :: u32 \<Rightarrow> 's \<Rightarrow> undefined_behaviour + 's, B :: u32, i :: u32, s :: 's).
      unat B - unat i))"
    by simp
next
  fix body :: "u32 \<Rightarrow> 's \<Rightarrow> undefined_behaviour + 's" and B i :: u32 and s s' :: 's
  assume "i < B"
  then have "unat i < unat B"
    by (simp add: word_less_nat_alt)
  moreover have "unat B < 2 ^ LENGTH(32)"
    by (rule unsigned_less)
  ultimately have "unat (i + 1) = unat i + 1" and "unat i < unat B"
    by (simp_all add: unat_plus_if')
  then show "((body, B, i + 1, s'), (body, B, i, s))
      \<in> measure (\<lambda>(body, B, i, s). unat B - unat i)"
    by simp
qed

declare for_loop_int.simps [simp del]


text \<open>
  The outer loop of the three parallel kernels,
  \<^verbatim>\<open>for (m = core_id; m < M; m += nPE) body\<close>, with unsigned 32-bit \<open>m\<close>, \<open>M\<close> and \<open>nPE\<close>.
  Here \<open>m += nPE\<close> can wrap, and the loop need not terminate: not returning is the value
  \<open>None\<close>.
\<close>

partial_function (option) stride_loop ::
  "(u32 \<Rightarrow> 's \<Rightarrow> 's) \<Rightarrow> u32 \<Rightarrow> u32 \<Rightarrow> u32 \<Rightarrow> 's \<Rightarrow> 's option" where
  "stride_loop body M nPE m s =
     (if m < M then stride_loop body M nPE (m + nPE) (body m s) else Some s)"



text \<open>The rows the outer loop visits, in order: the loop with a body that notes \<open>m\<close>.\<close>

definition rows_visited :: "u32 \<Rightarrow> u32 \<Rightarrow> u32 \<Rightarrow> u32 list option" where
  "rows_visited M nPE core_id = stride_loop (\<lambda>m rs. rs @ [m]) M nPE core_id []"

section \<open>Strided multiply-transpose, 32-bit integers\<close>

text \<open>
  The descriptor \<open>plp_mat_mult_stride_instance_i32\<close>, with the fields the kernel reads. The
  three descriptor structs share their field names; each record's fields carry a suffix.
  A pointer field holds the buffer it points to.
\<close>

record mat_mult_stride_instance_i32 =
  pSrcA_i32 :: "u32 \<Rightarrow> i32"
  pSrcB_i32 :: "u32 \<Rightarrow> i32"
  M_i32 :: u32
  N_i32 :: u32
  O_i32 :: u32
  strideA_i32 :: u32
  strideB_i32 :: u32
  strideC_i32 :: u32
  nPE_i32 :: u32
  pDstC_i32 :: "u32 \<Rightarrow> i32"

text \<open>
  Body of the loop over \<open>n\<close>: \<^verbatim>\<open>sum += pSrcA[m * strideA + n] * pSrcB[o * strideB + n]\<close>.
  The state is the accumulator and the access log.
\<close>

definition mac_i32 ::
  "mat_mult_stride_instance_i32 \<Rightarrow> u32 \<Rightarrow> u32 \<Rightarrow> u32 \<Rightarrow> i32 \<times> access list \<Rightarrow> i32 \<times> access list" where
  "mac_i32 a m col n = (\<lambda>(sum, tr).
     (let valA = pSrcA_i32 a (m * strideA_i32 a + n);
          valB = pSrcB_i32 a (col * strideB_i32 a + n)
      in (sum + valA * valB,
          tr @ [LoadA (m * strideA_i32 a + n), LoadB (col * strideB_i32 a + n)])))"

text \<open>
  Body of the loop over \<open>o\<close> (written \<open>col\<close>, as \<open>o\<close> is composition in HOL): \<^verbatim>\<open>sum = 0\<close>, the loop over \<open>n\<close>, then
  \<^verbatim>\<open>pDstC[m * strideC + col] = sum\<close>. The state is the output buffer and the access log.
\<close>

definition elem_i32 ::
  "mat_mult_stride_instance_i32 \<Rightarrow> u32 \<Rightarrow> u32 \<Rightarrow> (u32 \<Rightarrow> i32) \<times> access list
     \<Rightarrow> (u32 \<Rightarrow> i32) \<times> access list" where
  "elem_i32 a m col = (\<lambda>(dst, tr).
     (let (sum, tr') = for_loop (mac_i32 a m col) (N_i32 a) 0 (0, tr)
      in (dst(m * strideC_i32 a + col := sum), tr' @ [Store (m * strideC_i32 a + col)])))"

text \<open>Body of the loop over \<open>m\<close>: the loop over \<open>o\<close>.\<close>

definition row_i32 ::
  "mat_mult_stride_instance_i32 \<Rightarrow> u32 \<Rightarrow> (u32 \<Rightarrow> i32) \<times> access list
     \<Rightarrow> (u32 \<Rightarrow> i32) \<times> access list" where
  "row_i32 a m = for_loop (elem_i32 a m) (O_i32 a) 0"

text \<open>
  The kernel. \<open>rt_core_id()\<close> is a query of the execution environment and is the
  parameter \<open>core_id\<close>. The result is the descriptor with the output buffer as the
  kernel leaves it, and the log of the accesses made.
\<close>

definition plp_mat_mult_trans_stride_i32p_xpulpv2 ::
  "u32 \<Rightarrow> mat_mult_stride_instance_i32
     \<Rightarrow> (mat_mult_stride_instance_i32 \<times> access list) option" where
  "plp_mat_mult_trans_stride_i32p_xpulpv2 core_id a =
     map_option (\<lambda>(dst, tr). (a\<lparr>pDstC_i32 := dst\<rparr>, tr))
       (stride_loop (row_i32 a) (M_i32 a) (nPE_i32 a) core_id (pDstC_i32 a, []))"

section \<open>Strided complex multiply-transpose, 16-bit integers\<close>

text \<open>
  The descriptor \<open>plp_mat_mult_cmplx_stride_instance_i16\<close>: 16-bit inputs holding
  interleaved (real, imaginary) pairs, 32-bit output.
\<close>

record mat_mult_cmplx_stride_instance_i16 =
  pSrcA_c16 :: "u32 \<Rightarrow> i16"
  pSrcB_c16 :: "u32 \<Rightarrow> i16"
  M_c16 :: u32
  N_c16 :: u32
  O_c16 :: u32
  strideA_c16 :: u32
  strideB_c16 :: u32
  strideC_c16 :: u32
  nPE_c16 :: u32
  pDstC_c16 :: "u32 \<Rightarrow> i32"

text \<open>
  Body of the loop over \<open>n\<close>: the four loads, each cast to \<open>int32_t\<close> (sign extension),
  then \<^verbatim>\<open>sum_re += a_re * b_re - a_im * b_im\<close> and \<^verbatim>\<open>sum_im += a_re * b_im + a_im * b_re\<close>.
  The state is the two accumulators and the access log.
\<close>

definition mac_c16 ::
  "mat_mult_cmplx_stride_instance_i16 \<Rightarrow> u32 \<Rightarrow> u32 \<Rightarrow> u32
     \<Rightarrow> i32 \<times> i32 \<times> access list \<Rightarrow> i32 \<times> i32 \<times> access list" where
  "mac_c16 a m col n = (\<lambda>(sum_re, sum_im, tr).
     (let a_re = (scast (pSrcA_c16 a ((m * strideA_c16 a + n) * 2 + 0)) :: i32);
          a_im = (scast (pSrcA_c16 a ((m * strideA_c16 a + n) * 2 + 1)) :: i32);
          b_re = (scast (pSrcB_c16 a ((col * strideB_c16 a + n) * 2 + 0)) :: i32);
          b_im = (scast (pSrcB_c16 a ((col * strideB_c16 a + n) * 2 + 1)) :: i32)
      in (sum_re + (a_re * b_re - a_im * b_im),
          sum_im + (a_re * b_im + a_im * b_re),
          tr @ [LoadA ((m * strideA_c16 a + n) * 2 + 0), LoadA ((m * strideA_c16 a + n) * 2 + 1),
                LoadB ((col * strideB_c16 a + n) * 2 + 0), LoadB ((col * strideB_c16 a + n) * 2 + 1)])))"

text \<open>
  Body of the loop over \<open>o\<close>: both accumulators start at 0, the loop over \<open>n\<close> (an \<open>int\<close>
  counter), then the two stores \<^verbatim>\<open>pDstC[(m * strideC + col) * 2 + 0] = sum_re\<close> and
  \<^verbatim>\<open>pDstC[(m * strideC + col) * 2 + 1] = sum_im\<close>.
\<close>

definition elem_c16 ::
  "mat_mult_cmplx_stride_instance_i16 \<Rightarrow> u32 \<Rightarrow> u32 \<Rightarrow> (u32 \<Rightarrow> i32) \<times> access list
     \<Rightarrow> undefined_behaviour + (u32 \<Rightarrow> i32) \<times> access list" where
  "elem_c16 a m col = (\<lambda>(dst, tr).
     (case for_loop_int (\<lambda>n acc. Inr (mac_c16 a m col n acc)) (N_c16 a) 0 (0, 0, tr) of
        Inl e \<Rightarrow> Inl e
      | Inr (sum_re, sum_im, tr') \<Rightarrow>
          Inr (dst((m * strideC_c16 a + col) * 2 + 0 := sum_re,
                   (m * strideC_c16 a + col) * 2 + 1 := sum_im),
               tr' @ [Store ((m * strideC_c16 a + col) * 2 + 0),
                      Store ((m * strideC_c16 a + col) * 2 + 1)])))"

text \<open>Body of the loop over \<open>m\<close>: the loop over \<open>o\<close>, an \<open>int\<close> counter again.\<close>

definition row_c16 ::
  "mat_mult_cmplx_stride_instance_i16 \<Rightarrow> u32 \<Rightarrow> (u32 \<Rightarrow> i32) \<times> access list
     \<Rightarrow> undefined_behaviour + (u32 \<Rightarrow> i32) \<times> access list" where
  "row_c16 a m = for_loop_int (elem_c16 a m) (O_c16 a) 0"

text \<open>
  A round of the outer loop on a run that may already have gone undefined: the round runs
  on a defined state and passes an undefined one on.
\<close>

definition round_c16 ::
  "mat_mult_cmplx_stride_instance_i16 \<Rightarrow> u32
     \<Rightarrow> undefined_behaviour + (u32 \<Rightarrow> i32) \<times> access list
     \<Rightarrow> undefined_behaviour + (u32 \<Rightarrow> i32) \<times> access list" where
  "round_c16 a m st = (case st of Inl e \<Rightarrow> Inl e | Inr s \<Rightarrow> row_c16 a m s)"

text \<open>
  The kernel: \<open>None\<close> when it does not return, \<open>Inl\<close> when a counter overflowed, else the
  descriptor with the output buffer as the kernel leaves it, and the access log.
\<close>

definition plp_mat_mult_trans_cmplx_stride_i16p_xpulpv2 ::
  "u32 \<Rightarrow> mat_mult_cmplx_stride_instance_i16
     \<Rightarrow> (undefined_behaviour + mat_mult_cmplx_stride_instance_i16 \<times> access list) option" where
  "plp_mat_mult_trans_cmplx_stride_i16p_xpulpv2 core_id a =
     map_option (map_sum id (\<lambda>(dst, tr). (a\<lparr>pDstC_c16 := dst\<rparr>, tr)))
       (stride_loop (round_c16 a) (M_c16 a) (nPE_c16 a) core_id (Inr (pDstC_c16 a, [])))"

section \<open>Strided subtraction, 16-bit integers\<close>

text \<open>The descriptor \<open>plp_mat_sub_stride_instance_i16\<close>.\<close>

record mat_sub_stride_instance_i16 =
  pSrcA_s16 :: "u32 \<Rightarrow> i16"
  pSrcB_s16 :: "u32 \<Rightarrow> i16"
  M_s16 :: u32
  N_s16 :: u32
  strideA_s16 :: u32
  strideB_s16 :: u32
  strideY_s16 :: u32
  nPE_s16 :: u32
  pDst_s16 :: "u32 \<Rightarrow> i16"

text \<open>
  Body of the loop over \<open>n\<close>:
  \<^verbatim>\<open>pDst[m * strideY + n] = pSrcA[m * strideA + n] - pSrcB[m * strideB + n]\<close>.
  C promotes both \<open>int16_t\<close> operands to \<open>int\<close>, subtracts there, and the store converts
  the difference back to \<open>int16_t\<close>, keeping its low 16 bits.
\<close>

definition elem_s16 ::
  "mat_sub_stride_instance_i16 \<Rightarrow> u32 \<Rightarrow> u32 \<Rightarrow> (u32 \<Rightarrow> i16) \<times> access list
     \<Rightarrow> (u32 \<Rightarrow> i16) \<times> access list" where
  "elem_s16 a m n = (\<lambda>(dst, tr).
     (let valA = (scast (pSrcA_s16 a (m * strideA_s16 a + n)) :: i32);
          valB = (scast (pSrcB_s16 a (m * strideB_s16 a + n)) :: i32)
      in (dst(m * strideY_s16 a + n := (ucast (valA - valB) :: i16)),
          tr @ [LoadA (m * strideA_s16 a + n), LoadB (m * strideB_s16 a + n),
                Store (m * strideY_s16 a + n)])))"

definition row_s16 ::
  "mat_sub_stride_instance_i16 \<Rightarrow> u32 \<Rightarrow> (u32 \<Rightarrow> i16) \<times> access list
     \<Rightarrow> (u32 \<Rightarrow> i16) \<times> access list" where
  "row_s16 a m = for_loop (elem_s16 a m) (N_s16 a) 0"

definition plp_mat_sub_stride_i16p_xpulpv2 ::
  "u32 \<Rightarrow> mat_sub_stride_instance_i16
     \<Rightarrow> (mat_sub_stride_instance_i16 \<times> access list) option" where
  "plp_mat_sub_stride_i16p_xpulpv2 core_id a =
     map_option (\<lambda>(dst, tr). (a\<lparr>pDst_s16 := dst\<rparr>, tr))
       (stride_loop (row_s16 a) (M_s16 a) (nPE_s16 a) core_id (pDst_s16 a, []))"

section \<open>The workers of one parallel call\<close>

text \<open>
  The scheduler that starts one invocation per core and joins them is outside the
  repository. A schedule is the list of core identities in the order their invocations
  run; \<open>run_cores\<close> runs a kernel once for each, every invocation starting from the
  buffers the previous one left. It returns nothing when an invocation does not return.
\<close>

fun run_cores :: "(u32 \<Rightarrow> 'a \<Rightarrow> ('a \<times> access list) option) \<Rightarrow> u32 list \<Rightarrow> 'a \<Rightarrow> 'a option" where
  "run_cores worker [] a = Some a"
| "run_cores worker (c # cs) a =
     (case worker c a of None \<Rightarrow> None | Some (a', tr) \<Rightarrow> run_cores worker cs a')"

text \<open>The same for a kernel that may end in undefined behaviour, which ends the call.\<close>

fun run_cores_ub ::
  "(u32 \<Rightarrow> 'a \<Rightarrow> (undefined_behaviour + 'a \<times> access list) option) \<Rightarrow> u32 list \<Rightarrow> 'a
     \<Rightarrow> (undefined_behaviour + 'a) option" where
  "run_cores_ub worker [] a = Some (Inr a)"
| "run_cores_ub worker (c # cs) a =
     (case worker c a of
        None \<Rightarrow> None
      | Some (Inl e) \<Rightarrow> Some (Inl e)
      | Some (Inr (a', tr)) \<Rightarrow> run_cores_ub worker cs a')"

section \<open>Dispatch of the scalar dot product\<close>

text \<open>
  \<open>plp_dot_prod_i32s\<close> compares \<open>rt_cluster_id()\<close> with \<open>ARCHI_FC_CID\<close> and forwards its
  four arguments to \<open>plp_dot_prod_i32s_rv32im\<close> or to \<open>plp_dot_prod_i32s_xpulpv2\<close>. The
  cluster identity, the constant and the two kernels (declared in \<open>plp_math.h\<close>) are
  parameters; a kernel maps the two vectors and the block size to the value it stores in
  \<open>*pRes\<close>. The result names the kernel that ran and its value. The source has no abort,
  trap or assertion, so no branch of the model is an error.
\<close>

datatype isa_kernel = RV32IM | XPULPV2

datatype dispatch_error = Contract_violation

definition plp_dot_prod_i32s ::
  "u32 \<Rightarrow> u32 \<Rightarrow> ((u32 \<Rightarrow> i32) \<Rightarrow> (u32 \<Rightarrow> i32) \<Rightarrow> u32 \<Rightarrow> i32)
     \<Rightarrow> ((u32 \<Rightarrow> i32) \<Rightarrow> (u32 \<Rightarrow> i32) \<Rightarrow> u32 \<Rightarrow> i32)
     \<Rightarrow> (u32 \<Rightarrow> i32) \<Rightarrow> (u32 \<Rightarrow> i32) \<Rightarrow> u32 \<Rightarrow> dispatch_error + isa_kernel \<times> i32" where
  "plp_dot_prod_i32s cluster_id ARCHI_FC_CID plp_dot_prod_i32s_rv32im plp_dot_prod_i32s_xpulpv2
       pSrcA pSrcB blockSize =
     (if cluster_id = ARCHI_FC_CID
      then Inr (RV32IM, plp_dot_prod_i32s_rv32im pSrcA pSrcB blockSize)
      else Inr (XPULPV2, plp_dot_prod_i32s_xpulpv2 pSrcA pSrcB blockSize))"

section \<open>Descriptors the theorems are about\<close>

text \<open>
  The caller's side of the contract, as far as the theorems need it: the output stride is
  at least the row length (rows do not overlap), the output indices of all rows fit the
  32-bit index, and the row count is at most \<open>2 ^ 31\<close>. Output elements take four bytes
  (two in the subtraction kernel), so an output buffer that exists in the 32-bit address
  space of the target and has rows of at least one element has fewer rows than that.
  Nothing is asked of the input strides or of \<open>nPE\<close>. In the complex kernel \<open>N\<close> and \<open>O\<close>
  bound \<open>int\<close> counters and are at most \<open>INT_MAX\<close>.
\<close>

definition valid_i32 :: "mat_mult_stride_instance_i32 \<Rightarrow> bool" where
  "valid_i32 a \<longleftrightarrow>
     unat (O_i32 a) \<le> unat (strideC_i32 a) \<and>
     unat (M_i32 a) * unat (strideC_i32 a) \<le> 2 ^ 32 \<and>
     unat (M_i32 a) \<le> 2 ^ 31"

definition valid_c16 :: "mat_mult_cmplx_stride_instance_i16 \<Rightarrow> bool" where
  "valid_c16 a \<longleftrightarrow>
     unat (O_c16 a) \<le> unat (strideC_c16 a) \<and>
     2 * (unat (M_c16 a) * unat (strideC_c16 a)) \<le> 2 ^ 32 \<and>
     unat (M_c16 a) \<le> 2 ^ 31 \<and>
     unat (N_c16 a) < 2 ^ 31 \<and> unat (O_c16 a) < 2 ^ 31"

definition valid_s16 :: "mat_sub_stride_instance_i16 \<Rightarrow> bool" where
  "valid_s16 a \<longleftrightarrow>
     unat (N_s16 a) \<le> unat (strideY_s16 a) \<and>
     unat (M_s16 a) * unat (strideY_s16 a) \<le> 2 ^ 32 \<and>
     unat (M_s16 a) \<le> 2 ^ 31"

text \<open>
  A condition under which the outer loop returns for every \<open>core_id\<close>: the row counter
  never wraps, or \<open>M \<le> nPE\<close>, where a step that does not wrap leaves the matrix and a step
  that wraps lowers the counter. In the second case a worker may visit rows other than
  \<open>core_id + k * nPE\<close>.
\<close>

definition counter_ok :: "u32 \<Rightarrow> u32 \<Rightarrow> bool" where
  "counter_ok M nPE \<longleftrightarrow> 0 < nPE \<and> (M \<le> nPE \<or> unat M + unat nPE \<le> 2 ^ 32)"

text \<open>Row \<open>r\<close> is one of \<open>core_id, core_id + nPE, core_id + 2 * nPE, ...\<close>\<close>

definition assigned :: "u32 \<Rightarrow> u32 \<Rightarrow> u32 \<Rightarrow> bool" where
  "assigned nPE core_id r \<longleftrightarrow> (\<exists>k. unat r = unat core_id + k * unat nPE)"

section \<open>What the loops compute, in closed form\<close>

text \<open>The values the counter of a \<open>for_loop\<close> started at 0 takes, in order.\<close>

definition upto32 :: "u32 \<Rightarrow> u32 list" where
  "upto32 B = map of_nat [0..<unat B]"

text \<open>A list of stores (index, value) applied to a buffer, first store first.\<close>

definition store_all :: "(u32 \<times> 'v) list \<Rightarrow> (u32 \<Rightarrow> 'v) \<Rightarrow> (u32 \<Rightarrow> 'v)" where
  "store_all ws dst = fold (\<lambda>(i, v) d. d(i := v)) ws dst"

text \<open>Multiply-transpose: the sum of an output element, the stores and the accesses of a row.\<close>

definition dot_i32 :: "mat_mult_stride_instance_i32 \<Rightarrow> u32 \<Rightarrow> u32 \<Rightarrow> i32" where
  "dot_i32 a m col =
     (\<Sum>n = 0..<unat (N_i32 a).
        pSrcA_i32 a (m * strideA_i32 a + of_nat n) * pSrcB_i32 a (col * strideB_i32 a + of_nat n))"

definition stores_i32 :: "mat_mult_stride_instance_i32 \<Rightarrow> u32 \<Rightarrow> (u32 \<times> i32) list" where
  "stores_i32 a m = map (\<lambda>col. (m * strideC_i32 a + col, dot_i32 a m col)) (upto32 (O_i32 a))"

definition trace_i32 :: "mat_mult_stride_instance_i32 \<Rightarrow> u32 \<Rightarrow> access list" where
  "trace_i32 a m =
     concat (map (\<lambda>col.
        concat (map (\<lambda>n. [LoadA (m * strideA_i32 a + n), LoadB (col * strideB_i32 a + n)])
                  (upto32 (N_i32 a)))
        @ [Store (m * strideC_i32 a + col)]) (upto32 (O_i32 a)))"

text \<open>Complex multiply-transpose: real and imaginary sum of an output element.\<close>

definition re_c16 :: "mat_mult_cmplx_stride_instance_i16 \<Rightarrow> u32 \<Rightarrow> u32 \<Rightarrow> i32" where
  "re_c16 a m col =
     (\<Sum>n = 0..<unat (N_c16 a).
        scast (pSrcA_c16 a ((m * strideA_c16 a + of_nat n) * 2))
          * scast (pSrcB_c16 a ((col * strideB_c16 a + of_nat n) * 2))
        - scast (pSrcA_c16 a ((m * strideA_c16 a + of_nat n) * 2 + 1))
          * scast (pSrcB_c16 a ((col * strideB_c16 a + of_nat n) * 2 + 1)))"

definition im_c16 :: "mat_mult_cmplx_stride_instance_i16 \<Rightarrow> u32 \<Rightarrow> u32 \<Rightarrow> i32" where
  "im_c16 a m col =
     (\<Sum>n = 0..<unat (N_c16 a).
        scast (pSrcA_c16 a ((m * strideA_c16 a + of_nat n) * 2))
          * scast (pSrcB_c16 a ((col * strideB_c16 a + of_nat n) * 2 + 1))
        + scast (pSrcA_c16 a ((m * strideA_c16 a + of_nat n) * 2 + 1))
          * scast (pSrcB_c16 a ((col * strideB_c16 a + of_nat n) * 2)))"

definition stores_c16 :: "mat_mult_cmplx_stride_instance_i16 \<Rightarrow> u32 \<Rightarrow> (u32 \<times> i32) list" where
  "stores_c16 a m =
     concat (map (\<lambda>col. [((m * strideC_c16 a + col) * 2, re_c16 a m col),
                           ((m * strideC_c16 a + col) * 2 + 1, im_c16 a m col)])
               (upto32 (O_c16 a)))"

definition trace_c16 :: "mat_mult_cmplx_stride_instance_i16 \<Rightarrow> u32 \<Rightarrow> access list" where
  "trace_c16 a m =
     concat (map (\<lambda>col.
        concat (map (\<lambda>n. [LoadA ((m * strideA_c16 a + n) * 2), LoadA ((m * strideA_c16 a + n) * 2 + 1),
                           LoadB ((col * strideB_c16 a + n) * 2), LoadB ((col * strideB_c16 a + n) * 2 + 1)])
                  (upto32 (N_c16 a)))
        @ [Store ((m * strideC_c16 a + col) * 2), Store ((m * strideC_c16 a + col) * 2 + 1)])
       (upto32 (O_c16 a)))"

text \<open>
  The same sums in unbounded integers, every element at its signed value: what an
  accumulator of unlimited width would hold.
\<close>

definition exact_i32 :: "mat_mult_stride_instance_i32 \<Rightarrow> u32 \<Rightarrow> u32 \<Rightarrow> int" where
  "exact_i32 a m col =
     (\<Sum>n = 0..<unat (N_i32 a).
        sint (pSrcA_i32 a (m * strideA_i32 a + of_nat n))
          * sint (pSrcB_i32 a (col * strideB_i32 a + of_nat n)))"

definition exact_re_c16 :: "mat_mult_cmplx_stride_instance_i16 \<Rightarrow> u32 \<Rightarrow> u32 \<Rightarrow> int" where
  "exact_re_c16 a m col =
     (\<Sum>n = 0..<unat (N_c16 a).
        sint (pSrcA_c16 a ((m * strideA_c16 a + of_nat n) * 2))
          * sint (pSrcB_c16 a ((col * strideB_c16 a + of_nat n) * 2))
        - sint (pSrcA_c16 a ((m * strideA_c16 a + of_nat n) * 2 + 1))
          * sint (pSrcB_c16 a ((col * strideB_c16 a + of_nat n) * 2 + 1)))"

definition exact_im_c16 :: "mat_mult_cmplx_stride_instance_i16 \<Rightarrow> u32 \<Rightarrow> u32 \<Rightarrow> int" where
  "exact_im_c16 a m col =
     (\<Sum>n = 0..<unat (N_c16 a).
        sint (pSrcA_c16 a ((m * strideA_c16 a + of_nat n) * 2))
          * sint (pSrcB_c16 a ((col * strideB_c16 a + of_nat n) * 2 + 1))
        + sint (pSrcA_c16 a ((m * strideA_c16 a + of_nat n) * 2 + 1))
          * sint (pSrcB_c16 a ((col * strideB_c16 a + of_nat n) * 2)))"

text \<open>Subtraction: the stores and the accesses of a row.\<close>

definition stores_s16 :: "mat_sub_stride_instance_i16 \<Rightarrow> u32 \<Rightarrow> (u32 \<times> i16) list" where
  "stores_s16 a m =
     map (\<lambda>n. (m * strideY_s16 a + n,
                  pSrcA_s16 a (m * strideA_s16 a + n) - pSrcB_s16 a (m * strideB_s16 a + n)))
       (upto32 (N_s16 a))"

definition trace_s16 :: "mat_sub_stride_instance_i16 \<Rightarrow> u32 \<Rightarrow> access list" where
  "trace_s16 a m =
     concat (map (\<lambda>n. [LoadA (m * strideA_s16 a + n), LoadB (m * strideB_s16 a + n),
                        Store (m * strideY_s16 a + n)]) (upto32 (N_s16 a)))"

text \<open>The rows worker \<open>c\<close> visits, when its loop returns.\<close>

definition rows_of :: "u32 \<Rightarrow> u32 \<Rightarrow> u32 \<Rightarrow> u32 list" where
  "rows_of M nPE c = the (rows_visited M nPE c)"

section \<open>Example descriptors\<close>

text \<open>\<open>A = [[1, 2], [3, 4]]\<close> and \<open>B = [[1, 3], [5, 7]]\<close>, two workers.\<close>

definition example_i32 :: mat_mult_stride_instance_i32 where
  "example_i32 = \<lparr>pSrcA_i32 = (\<lambda>i. i + 1), pSrcB_i32 = (\<lambda>i. 2 * i + 1),
     M_i32 = 2, N_i32 = 2, O_i32 = 2, strideA_i32 = 2, strideB_i32 = 2, strideC_i32 = 2,
     nPE_i32 = 2, pDstC_i32 = (\<lambda>i. 0)\<rparr>"

text \<open>\<open>A = [(1, 2)]\<close> and \<open>B = [(3, 4)]\<close>: one complex element each, one inner step.\<close>

definition example_c16 :: mat_mult_cmplx_stride_instance_i16 where
  "example_c16 = \<lparr>pSrcA_c16 = (\<lambda>i. if i = 0 then 1 else 2),
     pSrcB_c16 = (\<lambda>i. if i = 0 then 3 else 4),
     M_c16 = 1, N_c16 = 1, O_c16 = 1, strideA_c16 = 1, strideB_c16 = 1, strideC_c16 = 1,
     nPE_c16 = 1, pDstC_c16 = (\<lambda>i. 0)\<rparr>"

text \<open>\<open>A = [[10, 11], [12, 13]]\<close> and \<open>B = [[0, 2], [4, 6]]\<close>, two workers.\<close>

definition example_s16 :: mat_sub_stride_instance_i16 where
  "example_s16 = \<lparr>pSrcA_s16 = (\<lambda>i. ucast i + 10), pSrcB_s16 = (\<lambda>i. 2 * ucast i),
     M_s16 = 2, N_s16 = 2, strideA_s16 = 2, strideB_s16 = 2, strideY_s16 = 2,
     nPE_s16 = 2, pDst_s16 = (\<lambda>i. 0)\<rparr>"

text \<open>
  Five rows of one element and \<open>nPE = 2 ^ 32 - 1\<close>: in worker 3 the row counter wraps from
  3 to 2, 1 and 0.
\<close>

definition wrapping_s16 :: mat_sub_stride_instance_i16 where
  "wrapping_s16 = \<lparr>pSrcA_s16 = (\<lambda>i. 1), pSrcB_s16 = (\<lambda>i. 0),
     M_s16 = 5, N_s16 = 1, strideA_s16 = 1, strideB_s16 = 1, strideY_s16 = 1,
     nPE_s16 = 0xFFFFFFFF, pDst_s16 = (\<lambda>i. 0)\<rparr>"

text \<open>
  \<open>M = 2 ^ 32 - 1\<close> rows of length 0 and \<open>nPE = 2 ^ 31\<close>: in worker 0 the row counter
  alternates between 0 and \<open>2 ^ 31\<close>, both below \<open>M\<close>.
\<close>

definition stuck_s16 :: mat_sub_stride_instance_i16 where
  "stuck_s16 = \<lparr>pSrcA_s16 = (\<lambda>i. 0), pSrcB_s16 = (\<lambda>i. 0),
     M_s16 = 0xFFFFFFFF, N_s16 = 0, strideA_s16 = 0, strideB_s16 = 0, strideY_s16 = 0,
     nPE_s16 = 0x80000000, pDst_s16 = (\<lambda>i. 0)\<rparr>"


text \<open>
  One element each, with products beyond the 32-bit range: \<open>(2 ^ 31 - 1) * 4\<close>, and the
  complex product of \<open>(-32768, -32768)\<close> with itself, whose imaginary part is \<open>2 ^ 31\<close>.
\<close>

definition overflow_i32 :: mat_mult_stride_instance_i32 where
  "overflow_i32 = \<lparr>pSrcA_i32 = (\<lambda>i. 0x7FFFFFFF), pSrcB_i32 = (\<lambda>i. 4),
     M_i32 = 1, N_i32 = 1, O_i32 = 1, strideA_i32 = 1, strideB_i32 = 1, strideC_i32 = 1,
     nPE_i32 = 1, pDstC_i32 = (\<lambda>i. 0)\<rparr>"

definition overflow_c16 :: mat_mult_cmplx_stride_instance_i16 where
  "overflow_c16 = \<lparr>pSrcA_c16 = (\<lambda>i. 0x8000), pSrcB_c16 = (\<lambda>i. 0x8000),
     M_c16 = 1, N_c16 = 1, O_c16 = 1, strideA_c16 = 1, strideB_c16 = 1, strideC_c16 = 1,
     nPE_c16 = 1, pDstC_c16 = (\<lambda>i. 0)\<rparr>"

section \<open>Facts about the loops\<close>

lemma unat_suc_less: "i < (B::u32) \<Longrightarrow> unat (i + 1) = Suc (unat i)"
proof -
  assume "i < B"
  then have "unat i < unat B"
    by (simp add: word_less_nat_alt)
  moreover have "unat B < 2 ^ LENGTH(32)"
    by (rule unsigned_less)
  ultimately show ?thesis
    by (simp add: unat_plus_if')
qed

lemma for_loop_fold_from:
  "for_loop body B i s = fold body (map of_nat [unat i..<unat B]) s"
proof (induction body B i s rule: for_loop.induct)
  case (1 body B i s)
  show ?case
  proof (cases "i < B")
    case True
    then have lt: "unat i < unat B"
      by (simp add: word_less_nat_alt)
    have "[unat i..<unat B] = unat i # [unat (i + 1)..<unat B]"
      using lt unat_suc_less [OF True] by (simp add: upt_conv_Cons)
    moreover have "for_loop body B i s = for_loop body B (i + 1) (body i s)"
      using True by (subst for_loop.simps) simp
    ultimately show ?thesis
      using 1 True by simp
  next
    case False
    then have "unat B \<le> unat i"
      by (simp add: word_less_nat_alt)
    moreover have "for_loop body B i s = s"
      using False by (subst for_loop.simps) simp
    ultimately show ?thesis
      by simp
  qed
qed

lemma for_loop_fold: "for_loop body B 0 s = fold body (upto32 B) s"
  by (simp add: for_loop_fold_from upto32_def)


lemma unat_of_nat_below: "k < unat (B::u32) \<Longrightarrow> unat (of_nat k :: u32) = k"
  by (rule le_unat_uoi [of k B]) simp

lemma set_upto32: "set (upto32 B) = {i. i < B}"
proof (rule set_eqI)
  fix i :: u32
  show "i \<in> set (upto32 B) \<longleftrightarrow> i \<in> {i. i < B}"
  proof
    assume "i \<in> set (upto32 B)"
    then obtain k where k: "k < unat B" "i = of_nat k"
      by (auto simp: upto32_def)
    then have "unat i = k"
      by (simp add: unat_of_nat_below)
    with k show "i \<in> {i. i < B}"
      by (simp add: word_less_nat_alt)
  next
    assume "i \<in> {i. i < B}"
    then have "unat i < unat B"
      by (simp add: word_less_nat_alt)
    then have "of_nat (unat i) \<in> set (upto32 B)"
      unfolding upto32_def by (simp del: of_nat_unat)
    then show "i \<in> set (upto32 B)"
      by simp
  qed
qed

lemma distinct_upto32: "distinct (upto32 B)"
proof -
  have "inj_on (of_nat :: nat \<Rightarrow> u32) {0..<unat B}"
  proof (rule inj_onI)
    fix x y assume x: "x \<in> {0..<unat B}" and y: "y \<in> {0..<unat B}"
      and eq: "(of_nat x :: u32) = of_nat y"
    have "x = unat (of_nat x :: u32)"
      using x by (simp add: unat_of_nat_below)
    also have "\<dots> = unat (of_nat y :: u32)"
      by (simp only: eq)
    also have "\<dots> = y"
      using y by (simp add: unat_of_nat_below)
    finally show "x = y" .
  qed
  then show ?thesis
    by (simp add: upto32_def distinct_map)
qed


lemma stride_induct [consumes 1, case_names step]:
  assumes ok: "counter_ok M nPE"
    and step: "\<And>m. (m < M \<Longrightarrow> P (m + nPE)) \<Longrightarrow> P m"
  shows "P m"
proof -
  have pos: "0 < unat nPE"
    using ok by (simp add: counter_ok_def word_less_nat_alt)
  from ok consider (nowrap) "unat M + unat nPE \<le> 2 ^ 32" | (big) "M \<le> nPE"
    by (auto simp: counter_ok_def)
  then show ?thesis
  proof cases
    case nowrap
    show ?thesis
    proof (induction "unat M - unat m" arbitrary: m rule: less_induct)
      case less
      show ?case
      proof (rule step)
        assume lt: "m < M"
        then have l: "unat m < unat M" by (simp add: word_less_nat_alt)
        then have "unat (m + nPE) = unat m + unat nPE"
          using nowrap by (simp add: unat_plus_if')
        with l pos have "unat M - unat (m + nPE) < unat M - unat m"
          by simp
        then show "P (m + nPE)" by (rule less)
      qed
    qed
  next
    case big
    define f where "f m = (if m < M then Suc (unat m) else 0)" for m
    show ?thesis
    proof (induction "f m" arbitrary: m rule: less_induct)
      case less
      show ?case
      proof (rule step)
        assume lt: "m < M"
        have "f (m + nPE) < f m"
        proof (cases "m + nPE < M")
          case False
          then have "f (m + nPE) = 0" by (simp only: f_def if_False)
          moreover from lt have "f m = Suc (unat m)" by (simp only: f_def if_True)
          ultimately show ?thesis by simp
        next
          case True
          have "unat (m + nPE) < unat m"
          proof (rule ccontr)
            assume "\<not> unat (m + nPE) < unat m"
            moreover have "unat nPE < 2 ^ 32"
              using unsigned_less [of nPE, where 'a = nat] by simp
            ultimately have "unat (m + nPE) = unat m + unat nPE"
              by (simp add: unat_plus_if' split: if_splits)
            then have "unat nPE \<le> unat (m + nPE)" by simp
            with True big show False
              by (simp add: word_less_nat_alt word_le_nat_alt)
          qed
          moreover from True have "f (m + nPE) = Suc (unat (m + nPE))" by (simp only: f_def if_True)
          moreover from lt have "f m = Suc (unat m)" by (simp only: f_def if_True)
          ultimately show ?thesis by simp
        qed
        then show "P (m + nPE)" by (rule less)
      qed
    qed
  qed
qed




lemma stride_loop_acc:
  assumes "counter_ok M nPE"
  shows "stride_loop (\<lambda>m rs. rs @ [m]) M nPE m acc
           = map_option ((@) acc) (rows_visited M nPE m)"
  using assms
proof (induction m arbitrary: acc rule: stride_induct)
  case (step m)
  show ?case
  proof (cases "m < M")
    case True
    have "stride_loop (\<lambda>m rs. rs @ [m]) M nPE m acc
            = stride_loop (\<lambda>m rs. rs @ [m]) M nPE (m + nPE) (acc @ [m])"
      using True by (subst stride_loop.simps) simp
    also have "\<dots> = map_option ((@) (acc @ [m])) (rows_visited M nPE (m + nPE))"
      by (rule step [OF True])
    finally have l: "stride_loop (\<lambda>m rs. rs @ [m]) M nPE m acc
            = map_option ((@) (acc @ [m])) (rows_visited M nPE (m + nPE))" .
    have "rows_visited M nPE m = stride_loop (\<lambda>m rs. rs @ [m]) M nPE (m + nPE) ([] @ [m])"
      unfolding rows_visited_def using True by (subst stride_loop.simps) simp
    also have "\<dots> = map_option ((@) ([] @ [m])) (rows_visited M nPE (m + nPE))"
      by (rule step [OF True])
    finally have r: "rows_visited M nPE m = map_option ((@) [m]) (rows_visited M nPE (m + nPE))"
      by simp
    show ?thesis
      unfolding l r by (cases "rows_visited M nPE (m + nPE)") simp_all
  next
    case False
    then have "stride_loop (\<lambda>m rs. rs @ [m]) M nPE m acc = Some acc"
      by (subst stride_loop.simps) simp
    moreover from False have "rows_visited M nPE m = Some []"
      unfolding rows_visited_def by (subst stride_loop.simps) simp
    ultimately show ?thesis by simp
  qed
qed

lemma rows_visited_unfold:
  assumes "counter_ok M nPE"
  shows "rows_visited M nPE m =
           (if m < M then map_option ((#) m) (rows_visited M nPE (m + nPE)) else Some [])"
proof (cases "m < M")
  case True
  have "rows_visited M nPE m = stride_loop (\<lambda>m rs. rs @ [m]) M nPE (m + nPE) [m]"
    unfolding rows_visited_def using True by (subst stride_loop.simps) simp
  also have "\<dots> = map_option ((@) [m]) (rows_visited M nPE (m + nPE))"
    by (rule stride_loop_acc [OF assms])
  finally show ?thesis
    using True by (cases "rows_visited M nPE (m + nPE)") simp_all
next
  case False
  then show ?thesis
    unfolding rows_visited_def by (subst stride_loop.simps) simp
qed

lemma rows_visited_Some:
  assumes "counter_ok M nPE"
  shows "\<exists>rs. rows_visited M nPE m = Some rs"
  using assms
proof (induction m rule: stride_induct)
  case (step m)
  then show ?case
    by (subst rows_visited_unfold [OF assms]) auto
qed

lemma stride_loop_fold:
  assumes "counter_ok M nPE"
  shows "stride_loop body M nPE m s = map_option (\<lambda>rs. fold body rs s) (rows_visited M nPE m)"
  using assms
proof (induction m arbitrary: s rule: stride_induct)
  case (step m)
  show ?case
  proof (cases "m < M")
    case True
    have "stride_loop body M nPE m s = stride_loop body M nPE (m + nPE) (body m s)"
      using True by (subst stride_loop.simps) simp
    also have "\<dots> = map_option (\<lambda>rs. fold body rs (body m s)) (rows_visited M nPE (m + nPE))"
      by (rule step [OF True])
    finally show ?thesis
      using True
      by (cases "rows_visited M nPE (m + nPE)") (simp_all add: rows_visited_unfold [OF assms, of m])
  next
    case False
    then have "stride_loop body M nPE m s = Some s"
      by (subst stride_loop.simps) simp
    with False show ?thesis
      by (simp add: rows_visited_unfold [OF assms, of m])
  qed
qed

lemma rows_visited_below:
  assumes ok: "counter_ok M nPE"
  shows "rows_visited M nPE m = Some rs \<Longrightarrow> r \<in> set rs \<Longrightarrow> r < M"
  using ok
proof (induction m arbitrary: rs rule: stride_induct)
  case (step m)
  show ?case
  proof (cases "m < M")
    case True
    with step.prems(1) obtain rs' where rs': "rows_visited M nPE (m + nPE) = Some rs'" "rs = m # rs'"
      by (subst (asm) rows_visited_unfold [OF ok]) auto
    with step.prems(2) True step.IH [OF True rs'(1)] show ?thesis
      by auto
  next
    case False
    with step.prems show ?thesis
      by (subst (asm) rows_visited_unfold [OF ok]) simp
  qed
qed

lemma rows_visited_first:
  assumes "counter_ok M nPE" and "rows_visited M nPE m = Some rs" and "m < M"
  shows "m \<in> set rs"
  using assms(2,3) by (subst (asm) rows_visited_unfold [OF assms(1)]) auto

lemma rows_visited_nowrap:
  assumes pos: "0 < nPE" and nowrap: "unat M + unat nPE \<le> 2 ^ 32"
  shows "rows_visited M nPE m = Some rs \<Longrightarrow>
           set rs = {r. r < M \<and> assigned nPE m r} \<and> sorted_wrt (<) rs"
proof -
  have ok: "counter_ok M nPE"
    using pos nowrap by (simp add: counter_ok_def)
  have p: "0 < unat nPE"
    using pos by (simp add: word_less_nat_alt)
  show "rows_visited M nPE m = Some rs \<Longrightarrow>
           set rs = {r. r < M \<and> assigned nPE m r} \<and> sorted_wrt (<) rs"
    using ok
  proof (induction m arbitrary: rs rule: stride_induct)
    case (step m)
    show ?case
    proof (cases "m < M")
      case True
      with step.prems obtain rs' where rs': "rows_visited M nPE (m + nPE) = Some rs'" "rs = m # rs'"
        by (subst (asm) rows_visited_unfold [OF ok]) auto
      have l: "unat m < unat M"
        using True by (simp add: word_less_nat_alt)
      then have u: "unat (m + nPE) = unat m + unat nPE"
        using nowrap by (simp add: unat_plus_if')
      from step.IH [OF True rs'(1)]
      have ih: "set rs' = {r. r < M \<and> assigned nPE (m + nPE) r}" "sorted_wrt (<) rs'"
        by simp_all
      have gt: "m < r" if "r \<in> set rs'" for r
      proof -
        from that ih(1) obtain k where "unat r = unat (m + nPE) + k * unat nPE"
          by (auto simp: assigned_def)
        with u p have "unat m < unat r" by simp
        then show ?thesis by (simp add: word_less_nat_alt)
      qed
      have "set rs = {r. r < M \<and> assigned nPE m r}"
      proof (rule set_eqI)
        fix r
        show "r \<in> set rs \<longleftrightarrow> r \<in> {r. r < M \<and> assigned nPE m r}"
        proof
          assume "r \<in> set rs"
          then consider "r = m" | "r \<in> set rs'" using rs'(2) by auto
          then show "r \<in> {r. r < M \<and> assigned nPE m r}"
          proof cases
            case 1
            have "unat m = unat m + 0 * unat nPE" by simp
            then have "assigned nPE m m" unfolding assigned_def by blast
            with 1 True show ?thesis by simp
          next
            case 2
            with ih(1) obtain k where k: "r < M" "unat r = unat (m + nPE) + k * unat nPE"
              by (auto simp: assigned_def)
            then have "unat r = unat m + Suc k * unat nPE"
              using u by simp
            then have "assigned nPE m r" unfolding assigned_def by blast
            with k(1) show ?thesis by simp
          qed
        next
          assume "r \<in> {r. r < M \<and> assigned nPE m r}"
          then obtain k where k: "r < M" "unat r = unat m + k * unat nPE"
            by (auto simp: assigned_def)
          show "r \<in> set rs"
          proof (cases k)
            case 0
            with k have "unat r = unat m" by simp
            then have "r = m" by (simp add: word_unat_eq_iff)
            with rs'(2) show ?thesis by simp
          next
            case (Suc j)
            with k u have "unat r = unat (m + nPE) + j * unat nPE" by simp
            then have "assigned nPE (m + nPE) r" unfolding assigned_def by blast
            with k(1) ih(1) rs'(2) show ?thesis by simp
          qed
        qed
      qed
      moreover have "sorted_wrt (<) rs"
        using ih(2) gt rs'(2) by simp
      ultimately show ?thesis by simp
    next
      case False
      with step.prems have "rs = []"
        by (subst (asm) rows_visited_unfold [OF ok]) simp
      moreover have "{r. r < M \<and> assigned nPE m r} = {}"
      proof -
        have "\<not> r < M" if "assigned nPE m r" for r
        proof -
          from that obtain k where "unat r = unat m + k * unat nPE"
            by (auto simp: assigned_def)
          then have "unat m \<le> unat r" by simp
          moreover from False have "unat M \<le> unat m"
            by (simp add: word_less_nat_alt)
          ultimately show ?thesis by (simp add: word_less_nat_alt)
        qed
        then show ?thesis by auto
      qed
      ultimately show ?thesis by simp
    qed
  qed
qed

lemma rows_visited_assigned:
  assumes ok: "counter_ok M nPE" and rs: "rows_visited M nPE c = Some rs"
    and r: "r < M" "assigned nPE c r"
  shows "r \<in> set rs"
proof (cases "unat M + unat nPE \<le> 2 ^ 32")
  case True
  with ok rs r show ?thesis
    using rows_visited_nowrap [of nPE M c rs] by (simp add: counter_ok_def)
next
  case False
  with ok have big: "M \<le> nPE" and p: "0 < unat nPE"
    by (auto simp: counter_ok_def word_less_nat_alt)
  from r(2) obtain k where k: "unat r = unat c + k * unat nPE"
    by (auto simp: assigned_def)
  have "unat r < unat nPE"
    using r(1) big by (simp add: word_less_nat_alt word_le_nat_alt)
  with k have "k = 0"
    by (cases k) auto
  with k have "r = c"
    by (simp add: word_unat_eq_iff)
  with rows_visited_first [OF ok rs] r(1) show ?thesis
    by simp
qed

lemma assigned_owner:
  assumes "0 < nPE"
  shows "\<exists>c. c < nPE \<and> assigned nPE c r"
proof -
  have p: "0 < unat nPE"
    using assms by (simp add: word_less_nat_alt)
  define c :: u32 where "c = of_nat (unat r mod unat nPE)"
  have lt: "unat r mod unat nPE < unat nPE"
    using p by simp
  then have uc: "unat c = unat r mod unat nPE"
    unfolding c_def by (rule unat_of_nat_below)
  have "c < nPE"
    using lt uc by (simp add: word_less_nat_alt)
  moreover have "unat r = unat c + (unat r div unat nPE) * unat nPE"
    using uc by simp
  then have "assigned nPE c r"
    unfolding assigned_def by blast
  ultimately show ?thesis by blast
qed

lemma assigned_unique:
  assumes "c < nPE" "c' < nPE" "assigned nPE c r" "assigned nPE c' r"
  shows "c = c'"
proof -
  from assms obtain k k' where k: "unat r = unat c + k * unat nPE" "unat r = unat c' + k' * unat nPE"
    by (auto simp: assigned_def)
  have lt: "unat c < unat nPE" "unat c' < unat nPE"
    using assms by (simp_all add: word_less_nat_alt)
  from k(1) lt(1) have "unat r mod unat nPE = unat c" by simp
  moreover from k(2) lt(2) have "unat r mod unat nPE = unat c'" by simp
  ultimately show ?thesis by (simp add: word_unat_eq_iff)
qed

lemma store_all_Nil: "store_all [] d = d"
  by (simp add: store_all_def)

lemma store_all_Cons: "store_all ((i, v) # ws) d = store_all ws (d(i := v))"
  by (simp add: store_all_def)

lemma store_all_append: "store_all (xs @ ys) d = store_all ys (store_all xs d)"
  by (simp add: store_all_def)

lemma store_all_miss: "i \<notin> fst ` set ws \<Longrightarrow> store_all ws d i = d i"
proof (induction ws arbitrary: d)
  case Nil
  then show ?case by (simp add: store_all_Nil)
next
  case (Cons w ws)
  then show ?case by (cases w) (auto simp: store_all_Cons)
qed

lemma store_all_hit:
  "(i, v) \<in> set ws \<Longrightarrow> (\<And>v'. (i, v') \<in> set ws \<Longrightarrow> v' = v) \<Longrightarrow> store_all ws d i = v"
proof (induction ws arbitrary: d)
  case Nil
  then show ?case by simp
next
  case (Cons w ws)
  obtain j u where w: "w = (j, u)" by (cases w)
  show ?case
  proof (cases "(i, v) \<in> set ws")
    case True
    then show ?thesis
      using Cons.IH [OF True] Cons.prems(2) by (simp add: w store_all_Cons)
  next
    case False
    with Cons.prems(1) have jv: "j = i" "u = v" by (auto simp: w)
    have "i \<notin> fst ` set ws"
    proof
      assume "i \<in> fst ` set ws"
      then obtain v' where "(i, v') \<in> set ws" by auto
      with Cons.prems(2) [of v'] False show False by auto
    qed
    then show ?thesis
      by (simp add: w jv store_all_Cons store_all_miss)
  qed
qed

lemma fold_stores:
  assumes "\<And>x d t. f x (d, t) = (store_all (w x) d, t @ e x)"
  shows "fold f xs (d, t) = (store_all (concat (map w xs)) d, t @ concat (map e xs))"
proof (induction xs arbitrary: d t)
  case Nil
  then show ?case by (simp add: store_all_Nil)
next
  case (Cons x xs)
  then show ?case by (simp add: assms store_all_append)
qed

lemma stride_loop_stores:
  assumes row: "\<And>m d t. row m (d, t) = (store_all (w m) d, t @ e m)"
    and ok: "counter_ok M nPE" and rs: "rows_visited M nPE c = Some rs"
  shows "stride_loop row M nPE c (d, t)
           = Some (store_all (concat (map w rs)) d, t @ concat (map e rs))"
  by (simp add: stride_loop_fold [OF ok] rs fold_stores [of row w e, OF row])

lemma sum_list_upto32:
  fixes f :: "u32 \<Rightarrow> 'b::comm_monoid_add"
  shows "sum_list (map f (upto32 B)) = (\<Sum>n = 0..<unat B. f (of_nat n))"
  by (simp add: upto32_def comp_def interv_sum_list_conv_sum_set_nat)

subsection \<open>The 32-bit multiply-transpose kernel\<close>

lemma fold_mac_i32:
  "fold (mac_i32 a m col) ns (s, tr) =
     (s + sum_list (map (\<lambda>n. pSrcA_i32 a (m * strideA_i32 a + n) * pSrcB_i32 a (col * strideB_i32 a + n)) ns),
      tr @ concat (map (\<lambda>n. [LoadA (m * strideA_i32 a + n), LoadB (col * strideB_i32 a + n)]) ns))"
  by (induction ns arbitrary: s tr) (simp_all add: mac_i32_def add.assoc)

lemma elem_i32_eq:
  "elem_i32 a m col (d, t) =
     (store_all [(m * strideC_i32 a + col, dot_i32 a m col)] d,
      t @ (concat (map (\<lambda>n. [LoadA (m * strideA_i32 a + n), LoadB (col * strideB_i32 a + n)])
                     (upto32 (N_i32 a)))
           @ [Store (m * strideC_i32 a + col)]))"
  by (simp add: elem_i32_def for_loop_fold fold_mac_i32 sum_list_upto32 dot_i32_def
      store_all_Cons store_all_Nil)

lemma row_i32_eq: "row_i32 a m (d, t) = (store_all (stores_i32 a m) d, t @ trace_i32 a m)"
  unfolding row_i32_def for_loop_fold
  by (subst fold_stores [where f = "elem_i32 a m", OF elem_i32_eq])
     (simp add: stores_i32_def trace_i32_def)

lemma kernel_i32_eq:
  assumes "counter_ok (M_i32 a) (nPE_i32 a)"
    and "rows_visited (M_i32 a) (nPE_i32 a) c = Some rs"
  shows "plp_mat_mult_trans_stride_i32p_xpulpv2 c a =
           Some (a\<lparr>pDstC_i32 := store_all (concat (map (stores_i32 a) rs)) (pDstC_i32 a)\<rparr>,
                 concat (map (trace_i32 a) rs))"
  unfolding plp_mat_mult_trans_stride_i32p_xpulpv2_def
  by (simp add: stride_loop_stores [where row = "row_i32 a", OF row_i32_eq assms])

lemma unat_offset:
  fixes m M col B sC :: u32
  assumes "m < M" "col < B" "unat B \<le> unat sC" "unat M * unat sC \<le> 2 ^ 32"
  shows "unat (m * sC + col) = unat m * unat sC + unat col"
proof -
  have m: "Suc (unat m) \<le> unat M" and c: "unat col < unat sC"
    using assms(1,2,3) by (simp_all add: word_less_nat_alt)
  have "Suc (unat m) * unat sC \<le> unat M * unat sC"
    using m by (rule mult_le_mono1)
  with assms(4) have b: "unat m * unat sC + unat sC \<le> 2 ^ 32"
    by simp
  with c have "unat m * unat sC < 2 ^ 32"
    by simp
  then have ms: "unat (m * sC) = unat m * unat sC"
    using unat_mult_lem [of m sC] by simp
  with b c have "unat (m * sC) + unat col < 2 ^ 32"
    by simp
  then have "unat (m * sC + col) = unat (m * sC) + unat col"
    using unat_add_lem [of "m * sC" col] by simp
  with ms show ?thesis by simp
qed

lemma offset_inj:
  fixes m m' M col col' B sC :: u32
  assumes "m < M" "m' < M" "col < B" "col' < B"
    and g: "unat B \<le> unat sC" "unat M * unat sC \<le> 2 ^ 32"
    and eq: "m * sC + col = m' * sC + col'"
  shows "m = m' \<and> col = col'"
proof -
  have c: "unat col < unat sC" "unat col' < unat sC"
    using assms(3,4) g(1) by (simp_all add: word_less_nat_alt)
  have "unat m * unat sC + unat col = unat m' * unat sC + unat col'"
    using unat_offset [OF assms(1) assms(3) g] unat_offset [OF assms(2) assms(4) g] eq
    by simp
  then have e: "unat col + unat m * unat sC = unat col' + unat m' * unat sC"
    by (simp add: add.commute)
  from e have "(unat col + unat m * unat sC) div unat sC = (unat col' + unat m' * unat sC) div unat sC"
    by simp
  with c have "unat m = unat m'" by simp
  moreover from e have "(unat col + unat m * unat sC) mod unat sC = (unat col' + unat m' * unat sC) mod unat sC"
    by simp
  with c have "unat col = unat col'" by simp
  ultimately show ?thesis by (simp add: word_unat_eq_iff)
qed

lemma stores_i32_mem:
  "(i, v) \<in> set (concat (map (stores_i32 a) rs)) \<longleftrightarrow>
     (\<exists>m\<in>set rs. \<exists>col. col < O_i32 a \<and> i = m * strideC_i32 a + col \<and> v = dot_i32 a m col)"
  by (auto simp: stores_i32_def set_upto32)

lemma final_i32:
  assumes v: "valid_i32 a" and rs: "\<And>r. r \<in> set rs \<Longrightarrow> r < M_i32 a"
    and m: "m \<in> set rs" and col: "col < O_i32 a"
  shows "store_all (concat (map (stores_i32 a) rs)) d (m * strideC_i32 a + col) = dot_i32 a m col"
proof (rule store_all_hit)
  show "(m * strideC_i32 a + col, dot_i32 a m col) \<in> set (concat (map (stores_i32 a) rs))"
    unfolding stores_i32_mem using m col by blast
next
  fix v'
  assume "(m * strideC_i32 a + col, v') \<in> set (concat (map (stores_i32 a) rs))"
  then obtain m' col' where m': "m' \<in> set rs" "col' < O_i32 a"
      "m * strideC_i32 a + col = m' * strideC_i32 a + col'" "v' = dot_i32 a m' col'"
    unfolding stores_i32_mem by blast
  from v have g: "unat (O_i32 a) \<le> unat (strideC_i32 a)"
      "unat (M_i32 a) * unat (strideC_i32 a) \<le> 2 ^ 32"
    by (simp_all add: valid_i32_def)
  have "m = m' \<and> col = col'"
    using offset_inj [OF rs [OF m] rs [OF m'(1)] col m'(2) g m'(3)] .
  with m'(4) show "v' = dot_i32 a m col" by simp
qed

lemma frame_i32:
  assumes "\<And>m col. m \<in> set rs \<Longrightarrow> col < O_i32 a \<Longrightarrow> i \<noteq> m * strideC_i32 a + col"
  shows "store_all (concat (map (stores_i32 a) rs)) d i = d i"
proof (rule store_all_miss)
  show "i \<notin> fst ` set (concat (map (stores_i32 a) rs))"
  proof
    assume "i \<in> fst ` set (concat (map (stores_i32 a) rs))"
    then obtain p where "p \<in> set (concat (map (stores_i32 a) rs))" "fst p = i"
      by blast
    then have "(i, snd p) \<in> set (concat (map (stores_i32 a) rs))"
      by (metis prod.collapse)
    then show False
      unfolding stores_i32_mem using assms by blast
  qed
qed

lemma rows_visited_rows_of:
  "counter_ok M nPE \<Longrightarrow> rows_visited M nPE c = Some (rows_of M nPE c)"
  using rows_visited_Some [of M nPE c] by (auto simp: rows_of_def)

lemma stores_i32_upd [simp]: "stores_i32 (a\<lparr>pDstC_i32 := d\<rparr>) = stores_i32 a"
  by (rule ext) (simp add: stores_i32_def dot_i32_def)

lemma run_cores_i32:
  assumes ok: "counter_ok (M_i32 a) (nPE_i32 a)"
  shows "run_cores plp_mat_mult_trans_stride_i32p_xpulpv2 cs (a\<lparr>pDstC_i32 := d\<rparr>) =
     Some (a\<lparr>pDstC_i32 := store_all
        (concat (map (stores_i32 a) (concat (map (rows_of (M_i32 a) (nPE_i32 a)) cs)))) d\<rparr>)"
proof (induction cs arbitrary: d)
  case Nil
  then show ?case by (simp add: store_all_Nil)
next
  case (Cons c cs)
  have "plp_mat_mult_trans_stride_i32p_xpulpv2 c (a\<lparr>pDstC_i32 := d\<rparr>) =
          Some (a\<lparr>pDstC_i32 := store_all (concat (map (stores_i32 a) (rows_of (M_i32 a) (nPE_i32 a) c))) d\<rparr>,
                concat (map (trace_i32 (a\<lparr>pDstC_i32 := d\<rparr>)) (rows_of (M_i32 a) (nPE_i32 a) c)))"
    using kernel_i32_eq [of "a\<lparr>pDstC_i32 := d\<rparr>" c "rows_of (M_i32 a) (nPE_i32 a) c"]
      ok rows_visited_rows_of [OF ok, of c]
    by simp
  then show ?case
    by (simp add: Cons.IH store_all_append)
qed

lemma counter_ok_valid: "unat M \<le> 2 ^ 31 \<Longrightarrow> 0 < nPE \<Longrightarrow> counter_ok M nPE"
proof -
  assume M: "unat M \<le> 2 ^ 31" and p: "0 < nPE"
  show ?thesis
  proof (cases "unat nPE \<le> 2 ^ 31")
    case True
    with M have "unat M + unat nPE \<le> 2 ^ 32" by simp
    with p show ?thesis by (simp add: counter_ok_def)
  next
    case False
    with M have "unat M \<le> unat nPE" by simp
    then have "M \<le> nPE" by (simp add: word_le_nat_alt)
    with p show ?thesis by (simp add: counter_ok_def)
  qed
qed

lemma schedule_rows:
  assumes ok: "counter_ok M nPE" and cs: "set cs = {c. c < nPE}"
  shows "set (concat (map (rows_of M nPE) cs)) = {r. r < M}"
proof (rule set_eqI)
  fix r
  show "r \<in> set (concat (map (rows_of M nPE) cs)) \<longleftrightarrow> r \<in> {r. r < M}"
  proof
    assume "r \<in> set (concat (map (rows_of M nPE) cs))"
    then obtain c where "r \<in> set (rows_of M nPE c)" by auto
    then show "r \<in> {r. r < M}"
      using rows_visited_below [OF ok rows_visited_rows_of [OF ok]] by simp
  next
    assume "r \<in> {r. r < M}"
    then have r: "r < M" by simp
    from ok have "0 < nPE" by (simp add: counter_ok_def)
    from assigned_owner [OF this] obtain c where c: "c < nPE" "assigned nPE c r" by blast
    have "r \<in> set (rows_of M nPE c)"
      using rows_visited_assigned [OF ok rows_visited_rows_of [OF ok] r c(2)] .
    with c(1) cs show "r \<in> set (concat (map (rows_of M nPE) cs))" by auto
  qed
qed

text \<open>
  C3. Once every worker of a parallel call has run (in any order), for every row
  \<open>m < M\<close> and column \<open>col < O\<close> the output element at offset \<open>m * strideC + col\<close> is
  the sum over \<open>n < N\<close> of \<open>A[m * strideA + n] * B[col * strideB + n]\<close>, in 32-bit
  arithmetic: \<open>B\<close> is indexed by output column, then inner index.
\<close>

theorem mat_mult_trans_stride_i32_result:
  assumes "valid_i32 a" and "0 < nPE_i32 a" and "set cs = {c. c < nPE_i32 a}"
  shows "\<exists>a'. run_cores plp_mat_mult_trans_stride_i32p_xpulpv2 cs a = Some a' \<and>
    (\<forall>m col. m < M_i32 a \<longrightarrow> col < O_i32 a \<longrightarrow>
       pDstC_i32 a' (m * strideC_i32 a + col) =
         (\<Sum>n = 0..<unat (N_i32 a).
            pSrcA_i32 a (m * strideA_i32 a + of_nat n) * pSrcB_i32 a (col * strideB_i32 a + of_nat n)))"
proof -
  have ok: "counter_ok (M_i32 a) (nPE_i32 a)"
    using assms(1,2) by (simp add: valid_i32_def counter_ok_valid)
  let ?rs = "concat (map (rows_of (M_i32 a) (nPE_i32 a)) cs)"
  have rows: "set ?rs = {r. r < M_i32 a}"
    by (rule schedule_rows [OF ok assms(3)])
  have "run_cores plp_mat_mult_trans_stride_i32p_xpulpv2 cs (a\<lparr>pDstC_i32 := pDstC_i32 a\<rparr>) =
     Some (a\<lparr>pDstC_i32 := store_all (concat (map (stores_i32 a) ?rs)) (pDstC_i32 a)\<rparr>)"
    by (rule run_cores_i32 [OF ok])
  then have run: "run_cores plp_mat_mult_trans_stride_i32p_xpulpv2 cs a =
     Some (a\<lparr>pDstC_i32 := store_all (concat (map (stores_i32 a) ?rs)) (pDstC_i32 a)\<rparr>)"
    by simp
  have "store_all (concat (map (stores_i32 a) ?rs)) (pDstC_i32 a) (m * strideC_i32 a + col) = dot_i32 a m col"
    if "m < M_i32 a" "col < O_i32 a" for m col
  proof (rule final_i32 [OF assms(1) _ _ that(2)])
    show "r < M_i32 a" if "r \<in> set ?rs" for r
      using that by (simp only: rows mem_Collect_eq)
    show "m \<in> set ?rs"
      using that(1) by (simp only: rows mem_Collect_eq)
  qed
  with run show ?thesis
    by (simp add: dot_i32_def)
qed

lemma less_2_u32: "{c :: u32. c < 2} = {0, 1}"
proof -
  have "c < 2 \<longleftrightarrow> c = 0 \<or> c = 1" for c :: u32
  proof
    assume "c < 2"
    then have "unat c < 2" by (simp add: word_less_nat_alt)
    then have "unat c = 0 \<or> unat c = 1" by auto
    then show "c = 0 \<or> c = 1" by (auto simp: word_unat_eq_iff)
  next
    assume "c = 0 \<or> c = 1"
    then show "c < 2" by auto
  qed
  then show ?thesis by auto
qed

lemma sum_upt_2: "(\<Sum>n = 0..<(2::nat). f n) = f 0 + f 1" for f :: "nat \<Rightarrow> 'a::comm_monoid_add"
  by (simp add: numeral_2_eq_2)

theorem mat_mult_trans_stride_i32_result_witness:
  "valid_i32 example_i32 \<and> 0 < nPE_i32 example_i32 \<and>
   set [1, 0] = {c. c < nPE_i32 example_i32} \<and>
   (\<exists>a'. run_cores plp_mat_mult_trans_stride_i32p_xpulpv2 [1, 0] example_i32 = Some a' \<and>
      pDstC_i32 a' 2 = 15)"
proof -
  have v: "valid_i32 example_i32"
    by (simp add: valid_i32_def example_i32_def)
  have p: "0 < nPE_i32 example_i32"
    by (simp add: example_i32_def)
  have s: "set [1, 0] = {c. c < nPE_i32 example_i32}"
    by (auto simp: example_i32_def less_2_u32)
  from mat_mult_trans_stride_i32_result [OF v p s]
  obtain a' where run: "run_cores plp_mat_mult_trans_stride_i32p_xpulpv2 [1, 0] example_i32 = Some a'"
    and out: "\<And>m col. m < M_i32 example_i32 \<Longrightarrow> col < O_i32 example_i32 \<Longrightarrow>
       pDstC_i32 a' (m * strideC_i32 example_i32 + col) =
         (\<Sum>n = 0..<unat (N_i32 example_i32).
            pSrcA_i32 example_i32 (m * strideA_i32 example_i32 + of_nat n)
              * pSrcB_i32 example_i32 (col * strideB_i32 example_i32 + of_nat n))"
    by blast
  have "pDstC_i32 a' 2 = 15"
    using out [of 1 0] by (simp add: example_i32_def sum_upt_2)
  with v p s run show ?thesis by blast
qed

subsection \<open>The complex multiply-transpose kernel\<close>

lemma mac_c16_step:
  "mac_c16 a m col n (sr, si, tr) =
     (sr + (scast (pSrcA_c16 a ((m * strideA_c16 a + n) * 2))
              * scast (pSrcB_c16 a ((col * strideB_c16 a + n) * 2))
            - scast (pSrcA_c16 a ((m * strideA_c16 a + n) * 2 + 1))
              * scast (pSrcB_c16 a ((col * strideB_c16 a + n) * 2 + 1))),
      si + (scast (pSrcA_c16 a ((m * strideA_c16 a + n) * 2))
              * scast (pSrcB_c16 a ((col * strideB_c16 a + n) * 2 + 1))
            + scast (pSrcA_c16 a ((m * strideA_c16 a + n) * 2 + 1))
              * scast (pSrcB_c16 a ((col * strideB_c16 a + n) * 2))),
      tr @ [LoadA ((m * strideA_c16 a + n) * 2), LoadA ((m * strideA_c16 a + n) * 2 + 1),
            LoadB ((col * strideB_c16 a + n) * 2), LoadB ((col * strideB_c16 a + n) * 2 + 1)])"
  unfolding mac_c16_def Let_def by (simp only: prod.case add_0_right)

lemma fold_mac_c16:
  "fold (mac_c16 a m col) ns (sr, si, tr) =
     (sr + sum_list (map (\<lambda>n.
          scast (pSrcA_c16 a ((m * strideA_c16 a + n) * 2))
            * scast (pSrcB_c16 a ((col * strideB_c16 a + n) * 2))
          - scast (pSrcA_c16 a ((m * strideA_c16 a + n) * 2 + 1))
            * scast (pSrcB_c16 a ((col * strideB_c16 a + n) * 2 + 1))) ns),
      si + sum_list (map (\<lambda>n.
          scast (pSrcA_c16 a ((m * strideA_c16 a + n) * 2))
            * scast (pSrcB_c16 a ((col * strideB_c16 a + n) * 2 + 1))
          + scast (pSrcA_c16 a ((m * strideA_c16 a + n) * 2 + 1))
            * scast (pSrcB_c16 a ((col * strideB_c16 a + n) * 2))) ns),
      tr @ concat (map (\<lambda>n.
          [LoadA ((m * strideA_c16 a + n) * 2), LoadA ((m * strideA_c16 a + n) * 2 + 1),
           LoadB ((col * strideB_c16 a + n) * 2), LoadB ((col * strideB_c16 a + n) * 2 + 1)]) ns))"
proof (induction ns arbitrary: sr si tr)
  case Nil
  then show ?case by simp
next
  case (Cons n ns)
  show ?case
    by (simp only: fold_simps mac_c16_step Cons.IH list.map sum_list.Cons concat.simps
        add.assoc append_assoc append.simps prod.inject simp_thms)
qed

lemma for_loop_int_defined:
  "unat B < 2 ^ 31 \<Longrightarrow> (\<And>i s. body i s = Inr (f i s)) \<Longrightarrow>
     for_loop_int body B i s = Inr (fold f (map of_nat [unat i..<unat B]) s)"
proof (induction body B i s rule: for_loop_int.induct)
  case (1 body B i s)
  note B = "1.prems"(1) and body = "1.prems"(2)
  show ?case
  proof (cases "i < B")
    case True
    then have lt: "unat i < unat B"
      by (simp add: word_less_nat_alt)
    have ne: "i \<noteq> 0x7FFFFFFF"
    proof
      assume "i = 0x7FFFFFFF"
      then have "unat i = 2 ^ 31 - 1" by simp
      with lt B show False by simp
    qed
    have "[unat i..<unat B] = unat i # [unat (i + 1)..<unat B]"
      using lt unat_suc_less [OF True] by (simp add: upt_conv_Cons)
    moreover have "for_loop_int body B i s = for_loop_int body B (i + 1) (f i s)"
      using True ne by (subst for_loop_int.simps) (simp add: body)
    moreover have "for_loop_int body B (i + 1) (f i s)
        = Inr (fold f (map of_nat [unat (i + 1)..<unat B]) (f i s))"
      by (rule "1.IH" [OF True body ne B body])
    ultimately show ?thesis
      by simp
  next
    case False
    then have "unat B \<le> unat i"
      by (simp add: word_less_nat_alt)
    moreover have "for_loop_int body B i s = Inr s"
      using False by (subst for_loop_int.simps) simp
    ultimately show ?thesis
      by simp
  qed
qed

lemma for_loop_int_fold:
  "unat B < 2 ^ 31 \<Longrightarrow> (\<And>i s. body i s = Inr (f i s)) \<Longrightarrow>
     for_loop_int body B 0 s = Inr (fold f (upto32 B) s)"
  by (simp add: for_loop_int_defined upto32_def)


lemma elem_c16_eq:
  assumes "unat (N_c16 a) < 2 ^ 31"
  shows "elem_c16 a m col (d, t) =
     Inr (store_all [((m * strideC_c16 a + col) * 2, re_c16 a m col),
                     ((m * strideC_c16 a + col) * 2 + 1, im_c16 a m col)] d,
          t @ (concat (map (\<lambda>n.
              [LoadA ((m * strideA_c16 a + n) * 2), LoadA ((m * strideA_c16 a + n) * 2 + 1),
               LoadB ((col * strideB_c16 a + n) * 2), LoadB ((col * strideB_c16 a + n) * 2 + 1)])
             (upto32 (N_c16 a)))
           @ [Store ((m * strideC_c16 a + col) * 2), Store ((m * strideC_c16 a + col) * 2 + 1)]))"
proof -
  have "for_loop_int (\<lambda>n acc. Inr (mac_c16 a m col n acc)) (N_c16 a) 0 (0, 0, t)
      = Inr (fold (mac_c16 a m col) (upto32 (N_c16 a)) (0, 0, t))"
    by (rule for_loop_int_fold [OF assms]) simp
  then show ?thesis
    by (simp add: elem_c16_def fold_mac_c16 sum_list_upto32 re_c16_def im_c16_def
        store_all_Cons store_all_Nil)
qed

lemma row_c16_eq:
  assumes N: "unat (N_c16 a) < 2 ^ 31" and O: "unat (O_c16 a) < 2 ^ 31"
  shows "row_c16 a m (d, t) = Inr (store_all (stores_c16 a m) d, t @ trace_c16 a m)"
proof -
  let ?w = "\<lambda>col. [((m * strideC_c16 a + col) * 2, re_c16 a m col),
                    ((m * strideC_c16 a + col) * 2 + 1, im_c16 a m col)]"
  let ?e = "\<lambda>col. concat (map (\<lambda>n.
              [LoadA ((m * strideA_c16 a + n) * 2), LoadA ((m * strideA_c16 a + n) * 2 + 1),
               LoadB ((col * strideB_c16 a + n) * 2), LoadB ((col * strideB_c16 a + n) * 2 + 1)])
             (upto32 (N_c16 a)))
           @ [Store ((m * strideC_c16 a + col) * 2), Store ((m * strideC_c16 a + col) * 2 + 1)]"
  let ?f = "\<lambda>col (d, t). (store_all (?w col) d, t @ ?e col)"
  have body: "elem_c16 a m col s = Inr (?f col s)" for col s
    by (cases s) (simp add: elem_c16_eq [OF N])
  have "row_c16 a m (d, t) = Inr (fold ?f (upto32 (O_c16 a)) (d, t))"
    unfolding row_c16_def by (rule for_loop_int_fold [OF O body])
  also have "fold ?f (upto32 (O_c16 a)) (d, t)
      = (store_all (concat (map ?w (upto32 (O_c16 a)))) d, t @ concat (map ?e (upto32 (O_c16 a))))"
    by (rule fold_stores) simp
  finally show ?thesis
    by (simp add: stores_c16_def trace_c16_def)
qed

lemma fold_round_c16:
  assumes N: "unat (N_c16 a) < 2 ^ 31" and O: "unat (O_c16 a) < 2 ^ 31"
  shows "fold (round_c16 a) rs (Inr (d, t))
           = Inr (store_all (concat (map (stores_c16 a) rs)) d, t @ concat (map (trace_c16 a) rs))"
proof (induction rs arbitrary: d t)
  case Nil
  then show ?case by (simp add: store_all_Nil)
next
  case (Cons r rs)
  then show ?case
    by (simp add: round_c16_def row_c16_eq [OF N O] store_all_append)
qed

lemma kernel_c16_eq:
  assumes "unat (N_c16 a) < 2 ^ 31" and "unat (O_c16 a) < 2 ^ 31"
    and "counter_ok (M_c16 a) (nPE_c16 a)"
    and "rows_visited (M_c16 a) (nPE_c16 a) c = Some rs"
  shows "plp_mat_mult_trans_cmplx_stride_i16p_xpulpv2 c a =
           Some (Inr (a\<lparr>pDstC_c16 := store_all (concat (map (stores_c16 a) rs)) (pDstC_c16 a)\<rparr>,
                      concat (map (trace_c16 a) rs)))"
  unfolding plp_mat_mult_trans_cmplx_stride_i16p_xpulpv2_def
  by (simp add: stride_loop_fold [OF assms(3)] assms(4) fold_round_c16 [OF assms(1,2)])

lemma unat_offset2:
  fixes m M col B sC :: u32
  assumes "m < M" "col < B" "unat B \<le> unat sC" "2 * (unat M * unat sC) \<le> 2 ^ 32"
  shows "unat ((m * sC + col) * 2) = 2 * (unat m * unat sC + unat col)"
    and "unat ((m * sC + col) * 2 + 1) = 2 * (unat m * unat sC + unat col) + 1"
proof -
  have g: "unat M * unat sC \<le> 2 ^ 32"
    using assms(4) by simp
  have x: "unat (m * sC + col) = unat m * unat sC + unat col"
    by (rule unat_offset [OF assms(1,2,3) g])
  have m: "Suc (unat m) \<le> unat M" and c: "unat col < unat sC"
    using assms(1,2,3) by (simp_all add: word_less_nat_alt)
  have "Suc (unat m) * unat sC \<le> unat M * unat sC"
    using m by (rule mult_le_mono1)
  with c have "unat m * unat sC + unat col < unat M * unat sC"
    by simp
  with assms(4) have b: "2 * (unat m * unat sC + unat col) + 1 < 2 ^ 32"
    by simp
  then have "unat (m * sC + col) * unat (2 :: u32) < 2 ^ 32"
    using x by simp
  then have y: "unat ((m * sC + col) * 2) = unat (m * sC + col) * unat (2 :: u32)"
    using unat_mult_lem [of "m * sC + col" "2 :: u32"] by simp
  with x show e: "unat ((m * sC + col) * 2) = 2 * (unat m * unat sC + unat col)"
    by simp
  from b e have "unat ((m * sC + col) * 2) + unat (1 :: u32) < 2 ^ 32"
    by simp
  then have "unat ((m * sC + col) * 2 + 1) = unat ((m * sC + col) * 2) + unat (1 :: u32)"
    using unat_add_lem [of "(m * sC + col) * 2" "1 :: u32"] by simp
  with e show "unat ((m * sC + col) * 2 + 1) = 2 * (unat m * unat sC + unat col) + 1"
    by simp
qed

lemma offset2_inj:
  fixes m m' M col col' B sC :: u32
  assumes "m < M" "m' < M" "col < B" "col' < B"
    and g: "unat B \<le> unat sC" "2 * (unat M * unat sC) \<le> 2 ^ 32"
  shows "(m * sC + col) * 2 = (m' * sC + col') * 2 \<Longrightarrow> m = m' \<and> col = col'"
    and "(m * sC + col) * 2 + 1 = (m' * sC + col') * 2 + 1 \<Longrightarrow> m = m' \<and> col = col'"
    and "(m * sC + col) * 2 \<noteq> (m' * sC + col') * 2 + 1"
proof -
  have g': "unat M * unat sC \<le> 2 ^ 32"
    using g(2) by simp
  note u = unat_offset2 [OF assms(1) assms(3) g] unat_offset2 [OF assms(2) assms(4) g]
  note x = unat_offset [OF assms(1) assms(3) g(1) g'] unat_offset [OF assms(2) assms(4) g(1) g']
  {
    assume "(m * sC + col) * 2 = (m' * sC + col') * 2"
    then have "unat ((m * sC + col) * 2) = unat ((m' * sC + col') * 2)"
      by simp
    then have "unat (m * sC + col) = unat (m' * sC + col')"
      using u x by simp
    then have "m * sC + col = m' * sC + col'"
      by (simp add: word_unat_eq_iff)
    then show "m = m' \<and> col = col'"
      by (rule offset_inj [OF assms(1,2,3,4) g(1) g'])
  }
  {
    assume "(m * sC + col) * 2 + 1 = (m' * sC + col') * 2 + 1"
    then have "unat ((m * sC + col) * 2 + 1) = unat ((m' * sC + col') * 2 + 1)"
      by simp
    then have "unat (m * sC + col) = unat (m' * sC + col')"
      using u x by simp
    then have "m * sC + col = m' * sC + col'"
      by (simp add: word_unat_eq_iff)
    then show "m = m' \<and> col = col'"
      by (rule offset_inj [OF assms(1,2,3,4) g(1) g'])
  }
  show "(m * sC + col) * 2 \<noteq> (m' * sC + col') * 2 + 1"
  proof
    assume "(m * sC + col) * 2 = (m' * sC + col') * 2 + 1"
    then have "unat ((m * sC + col) * 2) = unat ((m' * sC + col') * 2 + 1)"
      by simp
    then have "2 * (unat m * unat sC + unat col) = 2 * (unat m' * unat sC + unat col') + 1"
      using u by simp
    then show False by presburger
  qed
qed

lemma stores_c16_mem:
  "(i, v) \<in> set (concat (map (stores_c16 a) rs)) \<longleftrightarrow>
     (\<exists>m\<in>set rs. \<exists>col. col < O_c16 a \<and>
        (i = (m * strideC_c16 a + col) * 2 \<and> v = re_c16 a m col \<or>
         i = (m * strideC_c16 a + col) * 2 + 1 \<and> v = im_c16 a m col))"
  by (auto simp: stores_c16_def set_upto32)

lemma final_c16:
  assumes v: "valid_c16 a" and rs: "\<And>r. r \<in> set rs \<Longrightarrow> r < M_c16 a"
    and m: "m \<in> set rs" and col: "col < O_c16 a"
  shows "store_all (concat (map (stores_c16 a) rs)) d ((m * strideC_c16 a + col) * 2) = re_c16 a m col"
    and "store_all (concat (map (stores_c16 a) rs)) d ((m * strideC_c16 a + col) * 2 + 1) = im_c16 a m col"
proof -
  from v have g: "unat (O_c16 a) \<le> unat (strideC_c16 a)"
      "2 * (unat (M_c16 a) * unat (strideC_c16 a)) \<le> 2 ^ 32"
    by (simp_all add: valid_c16_def)
  show "store_all (concat (map (stores_c16 a) rs)) d ((m * strideC_c16 a + col) * 2) = re_c16 a m col"
  proof (rule store_all_hit)
    show "((m * strideC_c16 a + col) * 2, re_c16 a m col) \<in> set (concat (map (stores_c16 a) rs))"
      unfolding stores_c16_mem using m col by blast
  next
    fix v'
    assume "((m * strideC_c16 a + col) * 2, v') \<in> set (concat (map (stores_c16 a) rs))"
    then obtain m' col' where m': "m' \<in> set rs" "col' < O_c16 a"
      and d: "(m * strideC_c16 a + col) * 2 = (m' * strideC_c16 a + col') * 2 \<and> v' = re_c16 a m' col' \<or>
         (m * strideC_c16 a + col) * 2 = (m' * strideC_c16 a + col') * 2 + 1 \<and> v' = im_c16 a m' col'"
      unfolding stores_c16_mem by blast
    note inj = offset2_inj [OF rs [OF m] rs [OF m'(1)] col m'(2) g]
    from d inj(3) have e: "(m * strideC_c16 a + col) * 2 = (m' * strideC_c16 a + col') * 2"
      and v': "v' = re_c16 a m' col'"
      by blast+
    from inj(1) [OF e] v' show "v' = re_c16 a m col" by simp
  qed
  show "store_all (concat (map (stores_c16 a) rs)) d ((m * strideC_c16 a + col) * 2 + 1) = im_c16 a m col"
  proof (rule store_all_hit)
    show "((m * strideC_c16 a + col) * 2 + 1, im_c16 a m col) \<in> set (concat (map (stores_c16 a) rs))"
      unfolding stores_c16_mem using m col by blast
  next
    fix v'
    assume "((m * strideC_c16 a + col) * 2 + 1, v') \<in> set (concat (map (stores_c16 a) rs))"
    then obtain m' col' where m': "m' \<in> set rs" "col' < O_c16 a"
      and d: "(m * strideC_c16 a + col) * 2 + 1 = (m' * strideC_c16 a + col') * 2 \<and> v' = re_c16 a m' col' \<or>
         (m * strideC_c16 a + col) * 2 + 1 = (m' * strideC_c16 a + col') * 2 + 1 \<and> v' = im_c16 a m' col'"
      unfolding stores_c16_mem by blast
    note inj = offset2_inj [OF rs [OF m] rs [OF m'(1)] col m'(2) g]
    note inj' = offset2_inj(3) [OF rs [OF m'(1)] rs [OF m] m'(2) col g]
    from d inj' have e: "(m * strideC_c16 a + col) * 2 + 1 = (m' * strideC_c16 a + col') * 2 + 1"
      and v': "v' = im_c16 a m' col'"
      by (metis)+
    from inj(2) [OF e] v' show "v' = im_c16 a m col" by simp
  qed
qed

lemma frame_c16:
  assumes "\<And>m col. m \<in> set rs \<Longrightarrow> col < O_c16 a \<Longrightarrow>
      i \<noteq> (m * strideC_c16 a + col) * 2 \<and> i \<noteq> (m * strideC_c16 a + col) * 2 + 1"
  shows "store_all (concat (map (stores_c16 a) rs)) d i = d i"
proof (rule store_all_miss)
  show "i \<notin> fst ` set (concat (map (stores_c16 a) rs))"
  proof
    assume "i \<in> fst ` set (concat (map (stores_c16 a) rs))"
    then obtain p where "p \<in> set (concat (map (stores_c16 a) rs))" "fst p = i"
      by blast
    then have "(i, snd p) \<in> set (concat (map (stores_c16 a) rs))"
      by (metis prod.collapse)
    then show False
      unfolding stores_c16_mem using assms by blast
  qed
qed

lemma stores_c16_upd [simp]: "stores_c16 (a\<lparr>pDstC_c16 := d\<rparr>) = stores_c16 a"
  by (rule ext) (simp add: stores_c16_def re_c16_def im_c16_def)

lemma run_cores_c16:
  assumes N: "unat (N_c16 a) < 2 ^ 31" and O: "unat (O_c16 a) < 2 ^ 31"
    and ok: "counter_ok (M_c16 a) (nPE_c16 a)"
  shows "run_cores_ub plp_mat_mult_trans_cmplx_stride_i16p_xpulpv2 cs (a\<lparr>pDstC_c16 := d\<rparr>) =
     Some (Inr (a\<lparr>pDstC_c16 := store_all
        (concat (map (stores_c16 a) (concat (map (rows_of (M_c16 a) (nPE_c16 a)) cs)))) d\<rparr>))"
proof (induction cs arbitrary: d)
  case Nil
  then show ?case by (simp add: store_all_Nil)
next
  case (Cons c cs)
  have "plp_mat_mult_trans_cmplx_stride_i16p_xpulpv2 c (a\<lparr>pDstC_c16 := d\<rparr>) =
          Some (Inr (a\<lparr>pDstC_c16 := store_all (concat (map (stores_c16 a) (rows_of (M_c16 a) (nPE_c16 a) c))) d\<rparr>,
                concat (map (trace_c16 (a\<lparr>pDstC_c16 := d\<rparr>)) (rows_of (M_c16 a) (nPE_c16 a) c))))"
    using kernel_c16_eq [of "a\<lparr>pDstC_c16 := d\<rparr>" c "rows_of (M_c16 a) (nPE_c16 a) c"]
      N O ok rows_visited_rows_of [OF ok, of c]
    by simp
  then show ?case
    by (simp add: Cons.IH store_all_append)
qed

subsection \<open>The subtraction kernel\<close>

lemma sub_i16_low: "(ucast ((scast x :: i32) - scast y) :: i16) = x - y"
proof -
  have "(scast x :: i32) - scast y = word_of_int (sint x - sint y)"
    by (simp only: scast_eq wi_hom_sub)
  moreover have "(ucast (word_of_int (sint x - sint y) :: i32) :: i16) = word_of_int (sint x - sint y)"
    by (rule ucast_down_wi) (simp add: is_down)
  moreover have "(word_of_int (sint x - sint y) :: i16) = word_of_int (sint x) - word_of_int (sint y)"
    by (simp only: wi_hom_sub)
  moreover have "(word_of_int (sint x) :: i16) = x" "(word_of_int (sint y) :: i16) = y"
    by simp_all
  ultimately show ?thesis by (simp only:)
qed

lemma elem_s16_eq:
  "elem_s16 a m n (d, t) =
     (store_all [(m * strideY_s16 a + n,
                  pSrcA_s16 a (m * strideA_s16 a + n) - pSrcB_s16 a (m * strideB_s16 a + n))] d,
      t @ [LoadA (m * strideA_s16 a + n), LoadB (m * strideB_s16 a + n),
           Store (m * strideY_s16 a + n)])"
  unfolding elem_s16_def Let_def
  by (simp only: prod.case sub_i16_low store_all_Cons store_all_Nil)

lemma row_s16_eq: "row_s16 a m (d, t) = (store_all (stores_s16 a m) d, t @ trace_s16 a m)"
  unfolding row_s16_def for_loop_fold
  by (subst fold_stores [where f = "elem_s16 a m", OF elem_s16_eq])
     (simp add: stores_s16_def trace_s16_def)

lemma kernel_s16_eq:
  assumes "counter_ok (M_s16 a) (nPE_s16 a)"
    and "rows_visited (M_s16 a) (nPE_s16 a) c = Some rs"
  shows "plp_mat_sub_stride_i16p_xpulpv2 c a =
           Some (a\<lparr>pDst_s16 := store_all (concat (map (stores_s16 a) rs)) (pDst_s16 a)\<rparr>,
                 concat (map (trace_s16 a) rs))"
  unfolding plp_mat_sub_stride_i16p_xpulpv2_def
  by (simp add: stride_loop_stores [where row = "row_s16 a", OF row_s16_eq assms])

lemma stores_s16_mem:
  "(i, v) \<in> set (concat (map (stores_s16 a) rs)) \<longleftrightarrow>
     (\<exists>m\<in>set rs. \<exists>n. n < N_s16 a \<and> i = m * strideY_s16 a + n \<and>
        v = pSrcA_s16 a (m * strideA_s16 a + n) - pSrcB_s16 a (m * strideB_s16 a + n))"
  by (auto simp: stores_s16_def set_upto32)

lemma final_s16:
  assumes v: "valid_s16 a" and rs: "\<And>r. r \<in> set rs \<Longrightarrow> r < M_s16 a"
    and m: "m \<in> set rs" and n: "n < N_s16 a"
  shows "store_all (concat (map (stores_s16 a) rs)) d (m * strideY_s16 a + n) =
           pSrcA_s16 a (m * strideA_s16 a + n) - pSrcB_s16 a (m * strideB_s16 a + n)"
proof (rule store_all_hit)
  show "(m * strideY_s16 a + n,
         pSrcA_s16 a (m * strideA_s16 a + n) - pSrcB_s16 a (m * strideB_s16 a + n))
        \<in> set (concat (map (stores_s16 a) rs))"
    unfolding stores_s16_mem using m n by blast
next
  fix v'
  assume "(m * strideY_s16 a + n, v') \<in> set (concat (map (stores_s16 a) rs))"
  then obtain m' n' where m': "m' \<in> set rs" "n' < N_s16 a"
      "m * strideY_s16 a + n = m' * strideY_s16 a + n'"
      "v' = pSrcA_s16 a (m' * strideA_s16 a + n') - pSrcB_s16 a (m' * strideB_s16 a + n')"
    unfolding stores_s16_mem by blast
  from v have g: "unat (N_s16 a) \<le> unat (strideY_s16 a)"
      "unat (M_s16 a) * unat (strideY_s16 a) \<le> 2 ^ 32"
    by (simp_all add: valid_s16_def)
  have "m = m' \<and> n = n'"
    using offset_inj [OF rs [OF m] rs [OF m'(1)] n m'(2) g m'(3)] .
  with m'(4) show "v' = pSrcA_s16 a (m * strideA_s16 a + n) - pSrcB_s16 a (m * strideB_s16 a + n)"
    by simp
qed

lemma frame_s16:
  assumes "\<And>m n. m \<in> set rs \<Longrightarrow> n < N_s16 a \<Longrightarrow> i \<noteq> m * strideY_s16 a + n"
  shows "store_all (concat (map (stores_s16 a) rs)) d i = d i"
proof (rule store_all_miss)
  show "i \<notin> fst ` set (concat (map (stores_s16 a) rs))"
  proof
    assume "i \<in> fst ` set (concat (map (stores_s16 a) rs))"
    then obtain p where "p \<in> set (concat (map (stores_s16 a) rs))" "fst p = i"
      by blast
    then have "(i, snd p) \<in> set (concat (map (stores_s16 a) rs))"
      by (metis prod.collapse)
    then show False
      unfolding stores_s16_mem using assms by blast
  qed
qed

lemma stores_s16_upd [simp]: "stores_s16 (a\<lparr>pDst_s16 := d\<rparr>) = stores_s16 a"
  by (rule ext) (simp add: stores_s16_def)

lemma run_cores_s16:
  assumes ok: "counter_ok (M_s16 a) (nPE_s16 a)"
  shows "run_cores plp_mat_sub_stride_i16p_xpulpv2 cs (a\<lparr>pDst_s16 := d\<rparr>) =
     Some (a\<lparr>pDst_s16 := store_all
        (concat (map (stores_s16 a) (concat (map (rows_of (M_s16 a) (nPE_s16 a)) cs)))) d\<rparr>)"
proof (induction cs arbitrary: d)
  case Nil
  then show ?case by (simp add: store_all_Nil)
next
  case (Cons c cs)
  have "plp_mat_sub_stride_i16p_xpulpv2 c (a\<lparr>pDst_s16 := d\<rparr>) =
          Some (a\<lparr>pDst_s16 := store_all (concat (map (stores_s16 a) (rows_of (M_s16 a) (nPE_s16 a) c))) d\<rparr>,
                concat (map (trace_s16 (a\<lparr>pDst_s16 := d\<rparr>)) (rows_of (M_s16 a) (nPE_s16 a) c)))"
    using kernel_s16_eq [of "a\<lparr>pDst_s16 := d\<rparr>" c "rows_of (M_s16 a) (nPE_s16 a) c"]
      ok rows_visited_rows_of [OF ok, of c]
    by simp
  then show ?case
    by (simp add: Cons.IH store_all_append)
qed

subsection \<open>All workers of a call\<close>

lemma store_all_same:
  assumes "set ws = set ws'"
    and c: "\<And>i v v'. (i, v) \<in> set ws \<Longrightarrow> (i, v') \<in> set ws \<Longrightarrow> v = v'"
  shows "store_all ws d = store_all ws' d"
proof (rule ext)
  fix i
  show "store_all ws d i = store_all ws' d i"
  proof (cases "i \<in> fst ` set ws")
    case True
    then obtain p where "p \<in> set ws" "fst p = i" by blast
    then have m: "(i, snd p) \<in> set ws" by (metis prod.collapse)
    have "store_all ws d i = snd p"
      using m c [OF _ m] by (rule store_all_hit)
    moreover have "store_all ws' d i = snd p"
      using m c [OF _ m] unfolding assms(1) by (rule store_all_hit)
    ultimately show ?thesis by simp
  next
    case False
    then show ?thesis
      using assms(1) by (simp add: store_all_miss)
  qed
qed

lemma consistent_i32:
  assumes v: "valid_i32 a" and rs: "\<And>r. r \<in> set rs \<Longrightarrow> r < M_i32 a"
    and 1: "(i, v1) \<in> set (concat (map (stores_i32 a) rs))"
    and 2: "(i, v2) \<in> set (concat (map (stores_i32 a) rs))"
  shows "v1 = v2"
proof -
  from 1 obtain m col where m: "m \<in> set rs" "col < O_i32 a" "i = m * strideC_i32 a + col"
      "v1 = dot_i32 a m col"
    unfolding stores_i32_mem by blast
  from 2 obtain m' col' where m': "m' \<in> set rs" "col' < O_i32 a" "i = m' * strideC_i32 a + col'"
      "v2 = dot_i32 a m' col'"
    unfolding stores_i32_mem by blast
  from v have g: "unat (O_i32 a) \<le> unat (strideC_i32 a)"
      "unat (M_i32 a) * unat (strideC_i32 a) \<le> 2 ^ 32"
    by (simp_all add: valid_i32_def)
  have "m * strideC_i32 a + col = m' * strideC_i32 a + col'"
    using m(3) m'(3) by simp
  from offset_inj [OF rs [OF m(1)] rs [OF m'(1)] m(2) m'(2) g this] m(4) m'(4)
  show ?thesis by simp
qed

lemma consistent_c16:
  assumes v: "valid_c16 a" and rs: "\<And>r. r \<in> set rs \<Longrightarrow> r < M_c16 a"
    and 1: "(i, v1) \<in> set (concat (map (stores_c16 a) rs))"
    and 2: "(i, v2) \<in> set (concat (map (stores_c16 a) rs))"
  shows "v1 = v2"
proof -
  from 1 obtain m col where m: "m \<in> set rs" "col < O_c16 a"
    and d: "i = (m * strideC_c16 a + col) * 2 \<and> v1 = re_c16 a m col \<or>
            i = (m * strideC_c16 a + col) * 2 + 1 \<and> v1 = im_c16 a m col"
    unfolding stores_c16_mem by blast
  from d show ?thesis
  proof
    assume "i = (m * strideC_c16 a + col) * 2 \<and> v1 = re_c16 a m col"
    then have i: "i = (m * strideC_c16 a + col) * 2" and v1: "v1 = re_c16 a m col"
      by simp_all
    have "store_all (concat (map (stores_c16 a) rs)) (\<lambda>_. 0) i = re_c16 a m col"
      unfolding i by (rule final_c16(1) [OF v rs m])
    moreover have "store_all (concat (map (stores_c16 a) rs)) (\<lambda>_. 0) i = v2"
    proof (rule store_all_hit [OF 2])
      fix v' assume "(i, v') \<in> set (concat (map (stores_c16 a) rs))"
      then obtain m' col' where m': "m' \<in> set rs" "col' < O_c16 a"
        and d': "i = (m' * strideC_c16 a + col') * 2 \<and> v' = re_c16 a m' col' \<or>
            i = (m' * strideC_c16 a + col') * 2 + 1 \<and> v' = im_c16 a m' col'"
        unfolding stores_c16_mem by blast
      from 2 obtain m2 col2 where m2: "m2 \<in> set rs" "col2 < O_c16 a"
        and d2: "i = (m2 * strideC_c16 a + col2) * 2 \<and> v2 = re_c16 a m2 col2 \<or>
            i = (m2 * strideC_c16 a + col2) * 2 + 1 \<and> v2 = im_c16 a m2 col2"
        unfolding stores_c16_mem by blast
      from v have g: "unat (O_c16 a) \<le> unat (strideC_c16 a)"
          "2 * (unat (M_c16 a) * unat (strideC_c16 a)) \<le> 2 ^ 32"
        by (simp_all add: valid_c16_def)
      note a1 = offset2_inj [OF rs [OF m(1)] rs [OF m'(1)] m(2) m'(2) g]
      note a2 = offset2_inj [OF rs [OF m(1)] rs [OF m2(1)] m(2) m2(2) g]
      from d' a1(3) i have "m = m' \<and> col = col'" "v' = re_c16 a m' col'"
        using a1(1) by auto
      moreover from d2 a2(3) i have "m = m2 \<and> col = col2" "v2 = re_c16 a m2 col2"
        using a2(1) by auto
      ultimately show "v' = v2" by simp
    qed
    ultimately show ?thesis using v1 by simp
  next
    assume "i = (m * strideC_c16 a + col) * 2 + 1 \<and> v1 = im_c16 a m col"
    then have i: "i = (m * strideC_c16 a + col) * 2 + 1" and v1: "v1 = im_c16 a m col"
      by simp_all
    have "store_all (concat (map (stores_c16 a) rs)) (\<lambda>_. 0) i = im_c16 a m col"
      unfolding i by (rule final_c16(2) [OF v rs m])
    moreover have "store_all (concat (map (stores_c16 a) rs)) (\<lambda>_. 0) i = v2"
    proof (rule store_all_hit [OF 2])
      fix v' assume "(i, v') \<in> set (concat (map (stores_c16 a) rs))"
      then obtain m' col' where m': "m' \<in> set rs" "col' < O_c16 a"
        and d': "i = (m' * strideC_c16 a + col') * 2 \<and> v' = re_c16 a m' col' \<or>
            i = (m' * strideC_c16 a + col') * 2 + 1 \<and> v' = im_c16 a m' col'"
        unfolding stores_c16_mem by blast
      from 2 obtain m2 col2 where m2: "m2 \<in> set rs" "col2 < O_c16 a"
        and d2: "i = (m2 * strideC_c16 a + col2) * 2 \<and> v2 = re_c16 a m2 col2 \<or>
            i = (m2 * strideC_c16 a + col2) * 2 + 1 \<and> v2 = im_c16 a m2 col2"
        unfolding stores_c16_mem by blast
      from v have g: "unat (O_c16 a) \<le> unat (strideC_c16 a)"
          "2 * (unat (M_c16 a) * unat (strideC_c16 a)) \<le> 2 ^ 32"
        by (simp_all add: valid_c16_def)
      note a1 = offset2_inj [OF rs [OF m(1)] rs [OF m'(1)] m(2) m'(2) g]
      note b1 = offset2_inj(3) [OF rs [OF m'(1)] rs [OF m(1)] m'(2) m(2) g]
      note a2 = offset2_inj [OF rs [OF m(1)] rs [OF m2(1)] m(2) m2(2) g]
      note b2 = offset2_inj(3) [OF rs [OF m2(1)] rs [OF m(1)] m2(2) m(2) g]
      from d' b1 i have "m = m' \<and> col = col'" "v' = im_c16 a m' col'"
        using a1(2) by auto
      moreover from d2 b2 i have "m = m2 \<and> col = col2" "v2 = im_c16 a m2 col2"
        using a2(2) by auto
      ultimately show "v' = v2" by simp
    qed
    ultimately show ?thesis using v1 by simp
  qed
qed

lemma consistent_s16:
  assumes v: "valid_s16 a" and rs: "\<And>r. r \<in> set rs \<Longrightarrow> r < M_s16 a"
    and 1: "(i, v1) \<in> set (concat (map (stores_s16 a) rs))"
    and 2: "(i, v2) \<in> set (concat (map (stores_s16 a) rs))"
  shows "v1 = v2"
proof -
  from 1 obtain m n where m: "m \<in> set rs" "n < N_s16 a" "i = m * strideY_s16 a + n"
      "v1 = pSrcA_s16 a (m * strideA_s16 a + n) - pSrcB_s16 a (m * strideB_s16 a + n)"
    unfolding stores_s16_mem by blast
  from 2 obtain m' n' where m': "m' \<in> set rs" "n' < N_s16 a" "i = m' * strideY_s16 a + n'"
      "v2 = pSrcA_s16 a (m' * strideA_s16 a + n') - pSrcB_s16 a (m' * strideB_s16 a + n')"
    unfolding stores_s16_mem by blast
  from v have g: "unat (N_s16 a) \<le> unat (strideY_s16 a)"
      "unat (M_s16 a) * unat (strideY_s16 a) \<le> 2 ^ 32"
    by (simp_all add: valid_s16_def)
  have "m * strideY_s16 a + n = m' * strideY_s16 a + n'"
    using m(3) m'(3) by simp
  from offset_inj [OF rs [OF m(1)] rs [OF m'(1)] m(2) m'(2) g this] m(4) m'(4)
  show ?thesis by simp
qed

lemma set_concat_map_cong:
  "set xs = set ys \<Longrightarrow> set (concat (map f xs)) = set (concat (map f ys))"
  by simp

lemma less_1_u32: "{c :: u32. c < 1} = {0}"
  by (auto simp: word_less_nat_alt word_unat_eq_iff)

lemma counter_ok_1: "counter_ok M 1"
proof -
  have "unat M < 2 ^ 32"
    using unsigned_less [of M, where 'a = nat] by simp
  then show ?thesis
    by (simp add: counter_ok_def)
qed

lemma stores_i32_nPE [simp]: "stores_i32 (a\<lparr>nPE_i32 := k\<rparr>) = stores_i32 a"
  by (rule ext) (simp add: stores_i32_def dot_i32_def)

lemma stores_c16_nPE [simp]: "stores_c16 (a\<lparr>nPE_c16 := k\<rparr>) = stores_c16 a"
  by (rule ext) (simp add: stores_c16_def re_c16_def im_c16_def)

lemma stores_s16_nPE [simp]: "stores_s16 (a\<lparr>nPE_s16 := k\<rparr>) = stores_s16 a"
  by (rule ext) (simp add: stores_s16_def)

lemma invariance_i32:
  assumes v: "valid_i32 a" and p: "0 < nPE" and cs: "set cs = {c. c < nPE}"
  shows "\<exists>p s. run_cores plp_mat_mult_trans_stride_i32p_xpulpv2 cs (a\<lparr>nPE_i32 := nPE\<rparr>) = Some p \<and>
           run_cores plp_mat_mult_trans_stride_i32p_xpulpv2 [0] (a\<lparr>nPE_i32 := 1\<rparr>) = Some s \<and>
           pDstC_i32 p = pDstC_i32 s"
proof -
  let ?M = "M_i32 a"
  have ok: "counter_ok ?M nPE"
    using v p by (simp add: valid_i32_def counter_ok_valid)
  let ?R = "concat (map (rows_of ?M nPE) cs)" and ?S = "concat (map (rows_of ?M 1) [0])"
  have R: "set ?R = {r. r < ?M}"
    by (rule schedule_rows [OF ok cs])
  have S: "set ?S = {r. r < ?M}"
    by (rule schedule_rows [OF counter_ok_1]) (simp add: less_1_u32)
  have 1: "run_cores plp_mat_mult_trans_stride_i32p_xpulpv2 cs (a\<lparr>nPE_i32 := nPE\<rparr>) =
      Some (a\<lparr>nPE_i32 := nPE, pDstC_i32 := store_all (concat (map (stores_i32 a) ?R)) (pDstC_i32 a)\<rparr>)"
    using run_cores_i32 [of "a\<lparr>nPE_i32 := nPE\<rparr>" cs "pDstC_i32 a"] ok by simp
  have 2: "run_cores plp_mat_mult_trans_stride_i32p_xpulpv2 [0] (a\<lparr>nPE_i32 := 1\<rparr>) =
      Some (a\<lparr>nPE_i32 := 1, pDstC_i32 := store_all (concat (map (stores_i32 a) ?S)) (pDstC_i32 a)\<rparr>)"
    using run_cores_i32 [of "a\<lparr>nPE_i32 := 1\<rparr>" "[0]" "pDstC_i32 a"] counter_ok_1 [of ?M]
    by simp
  have "store_all (concat (map (stores_i32 a) ?R)) (pDstC_i32 a) =
        store_all (concat (map (stores_i32 a) ?S)) (pDstC_i32 a)"
  proof (rule store_all_same)
    show "set (concat (map (stores_i32 a) ?R)) = set (concat (map (stores_i32 a) ?S))"
      by (rule set_concat_map_cong) (simp only: R S)
    show "v1 = v2" if "(i, v1) \<in> set (concat (map (stores_i32 a) ?R))"
      "(i, v2) \<in> set (concat (map (stores_i32 a) ?R))" for i v1 v2
    proof (rule consistent_i32 [OF v _ that])
      show "r < ?M" if "r \<in> set ?R" for r
        using that by (simp only: R mem_Collect_eq)
    qed
  qed
  with 1 2 show ?thesis by simp
qed

lemma invariance_c16:
  assumes v: "valid_c16 a" and p: "0 < nPE" and cs: "set cs = {c. c < nPE}"
  shows "\<exists>p s. run_cores_ub plp_mat_mult_trans_cmplx_stride_i16p_xpulpv2 cs (a\<lparr>nPE_c16 := nPE\<rparr>)
             = Some (Inr p) \<and>
           run_cores_ub plp_mat_mult_trans_cmplx_stride_i16p_xpulpv2 [0] (a\<lparr>nPE_c16 := 1\<rparr>)
             = Some (Inr s) \<and>
           pDstC_c16 p = pDstC_c16 s"
proof -
  let ?M = "M_c16 a"
  have ok: "counter_ok ?M nPE"
    using v p by (simp add: valid_c16_def counter_ok_valid)
  have N: "unat (N_c16 a) < 2 ^ 31" and O: "unat (O_c16 a) < 2 ^ 31"
    using v by (simp_all add: valid_c16_def)
  let ?R = "concat (map (rows_of ?M nPE) cs)" and ?S = "concat (map (rows_of ?M 1) [0])"
  have R: "set ?R = {r. r < ?M}"
    by (rule schedule_rows [OF ok cs])
  have S: "set ?S = {r. r < ?M}"
    by (rule schedule_rows [OF counter_ok_1]) (simp add: less_1_u32)
  have 1: "run_cores_ub plp_mat_mult_trans_cmplx_stride_i16p_xpulpv2 cs (a\<lparr>nPE_c16 := nPE\<rparr>) =
      Some (Inr (a\<lparr>nPE_c16 := nPE, pDstC_c16 := store_all (concat (map (stores_c16 a) ?R)) (pDstC_c16 a)\<rparr>))"
    using run_cores_c16 [of "a\<lparr>nPE_c16 := nPE\<rparr>" cs "pDstC_c16 a"] ok N O by simp
  have 2: "run_cores_ub plp_mat_mult_trans_cmplx_stride_i16p_xpulpv2 [0] (a\<lparr>nPE_c16 := 1\<rparr>) =
      Some (Inr (a\<lparr>nPE_c16 := 1, pDstC_c16 := store_all (concat (map (stores_c16 a) ?S)) (pDstC_c16 a)\<rparr>))"
    using run_cores_c16 [of "a\<lparr>nPE_c16 := 1\<rparr>" "[0]" "pDstC_c16 a"] counter_ok_1 [of ?M] N O
    by simp
  have "store_all (concat (map (stores_c16 a) ?R)) (pDstC_c16 a) =
        store_all (concat (map (stores_c16 a) ?S)) (pDstC_c16 a)"
  proof (rule store_all_same)
    show "set (concat (map (stores_c16 a) ?R)) = set (concat (map (stores_c16 a) ?S))"
      by (rule set_concat_map_cong) (simp only: R S)
    show "v1 = v2" if "(i, v1) \<in> set (concat (map (stores_c16 a) ?R))"
      "(i, v2) \<in> set (concat (map (stores_c16 a) ?R))" for i v1 v2
    proof (rule consistent_c16 [OF v _ that])
      show "r < ?M" if "r \<in> set ?R" for r
        using that by (simp only: R mem_Collect_eq)
    qed
  qed
  with 1 2 show ?thesis by simp
qed

lemma invariance_s16:
  assumes v: "valid_s16 a" and p: "0 < nPE" and cs: "set cs = {c. c < nPE}"
  shows "\<exists>p s. run_cores plp_mat_sub_stride_i16p_xpulpv2 cs (a\<lparr>nPE_s16 := nPE\<rparr>) = Some p \<and>
           run_cores plp_mat_sub_stride_i16p_xpulpv2 [0] (a\<lparr>nPE_s16 := 1\<rparr>) = Some s \<and>
           pDst_s16 p = pDst_s16 s"
proof -
  let ?M = "M_s16 a"
  have ok: "counter_ok ?M nPE"
    using v p by (simp add: valid_s16_def counter_ok_valid)
  let ?R = "concat (map (rows_of ?M nPE) cs)" and ?S = "concat (map (rows_of ?M 1) [0])"
  have R: "set ?R = {r. r < ?M}"
    by (rule schedule_rows [OF ok cs])
  have S: "set ?S = {r. r < ?M}"
    by (rule schedule_rows [OF counter_ok_1]) (simp add: less_1_u32)
  have 1: "run_cores plp_mat_sub_stride_i16p_xpulpv2 cs (a\<lparr>nPE_s16 := nPE\<rparr>) =
      Some (a\<lparr>nPE_s16 := nPE, pDst_s16 := store_all (concat (map (stores_s16 a) ?R)) (pDst_s16 a)\<rparr>)"
    using run_cores_s16 [of "a\<lparr>nPE_s16 := nPE\<rparr>" cs "pDst_s16 a"] ok by simp
  have 2: "run_cores plp_mat_sub_stride_i16p_xpulpv2 [0] (a\<lparr>nPE_s16 := 1\<rparr>) =
      Some (a\<lparr>nPE_s16 := 1, pDst_s16 := store_all (concat (map (stores_s16 a) ?S)) (pDst_s16 a)\<rparr>)"
    using run_cores_s16 [of "a\<lparr>nPE_s16 := 1\<rparr>" "[0]" "pDst_s16 a"] counter_ok_1 [of ?M]
    by simp
  have "store_all (concat (map (stores_s16 a) ?R)) (pDst_s16 a) =
        store_all (concat (map (stores_s16 a) ?S)) (pDst_s16 a)"
  proof (rule store_all_same)
    show "set (concat (map (stores_s16 a) ?R)) = set (concat (map (stores_s16 a) ?S))"
      by (rule set_concat_map_cong) (simp only: R S)
    show "v1 = v2" if "(i, v1) \<in> set (concat (map (stores_s16 a) ?R))"
      "(i, v2) \<in> set (concat (map (stores_s16 a) ?R))" for i v1 v2
    proof (rule consistent_s16 [OF v _ that])
      show "r < ?M" if "r \<in> set ?R" for r
        using that by (simp only: R mem_Collect_eq)
    qed
  qed
  with 1 2 show ?thesis by simp
qed

lemma less_3_u32: "{c :: u32. c < 3} = {0, 1, 2}"
proof -
  have "c < 3 \<longleftrightarrow> c = 0 \<or> c = 1 \<or> c = 2" for c :: u32
  proof
    assume "c < 3"
    then have "unat c < 3" by (simp add: word_less_nat_alt)
    then have "unat c = 0 \<or> unat c = 1 \<or> unat c = 2" by auto
    then show "c = 0 \<or> c = 1 \<or> c = 2" by (auto simp: word_unat_eq_iff)
  next
    assume "c = 0 \<or> c = 1 \<or> c = 2"
    then show "c < 3" by auto
  qed
  then show ?thesis by auto
qed

lemma sum_upt_1: "(\<Sum>n = 0..<(1::nat). f n) = f 0" for f :: "nat \<Rightarrow> 'a::comm_monoid_add"
  by simp

text \<open>
  C2. For a valid descriptor and every worker count \<open>nPE \<ge> 1\<close> (also \<open>nPE > M\<close>), running
  the kernel once for each \<open>core_id < nPE\<close>, in any order, leaves the same output buffer
  as the single invocation with \<open>nPE = 1\<close>. Shown for the three kernels; a valid descriptor
  of the complex kernel has \<open>N\<close> and \<open>O\<close> below \<open>2 ^ 31\<close>, and both of its runs are defined.
\<close>

theorem partition_invariance:
  assumes "valid_i32 a" and "valid_c16 b" and "valid_s16 d"
    and "0 < nPE" and "set cs = {c. c < nPE}"
  shows "(\<exists>p s. run_cores plp_mat_mult_trans_stride_i32p_xpulpv2 cs (a\<lparr>nPE_i32 := nPE\<rparr>) = Some p \<and>
            run_cores plp_mat_mult_trans_stride_i32p_xpulpv2 [0] (a\<lparr>nPE_i32 := 1\<rparr>) = Some s \<and>
            pDstC_i32 p = pDstC_i32 s) \<and>
         (\<exists>p s. run_cores_ub plp_mat_mult_trans_cmplx_stride_i16p_xpulpv2 cs (b\<lparr>nPE_c16 := nPE\<rparr>)
              = Some (Inr p) \<and>
            run_cores_ub plp_mat_mult_trans_cmplx_stride_i16p_xpulpv2 [0] (b\<lparr>nPE_c16 := 1\<rparr>)
              = Some (Inr s) \<and>
            pDstC_c16 p = pDstC_c16 s) \<and>
         (\<exists>p s. run_cores plp_mat_sub_stride_i16p_xpulpv2 cs (d\<lparr>nPE_s16 := nPE\<rparr>) = Some p \<and>
            run_cores plp_mat_sub_stride_i16p_xpulpv2 [0] (d\<lparr>nPE_s16 := 1\<rparr>) = Some s \<and>
            pDst_s16 p = pDst_s16 s)"
  using invariance_i32 [OF assms(1,4,5)] invariance_c16 [OF assms(2,4,5)]
    invariance_s16 [OF assms(3,4,5)]
  by (intro conjI)

theorem partition_invariance_witness:
  "valid_i32 example_i32 \<and> valid_c16 example_c16 \<and> valid_s16 example_s16 \<and>
   (0 :: u32) < 3 \<and> set [2, 0, 1] = {c :: u32. c < 3} \<and>
   (\<exists>p s. run_cores plp_mat_mult_trans_stride_i32p_xpulpv2 [2, 0, 1] (example_i32\<lparr>nPE_i32 := 3\<rparr>) = Some p \<and>
      run_cores plp_mat_mult_trans_stride_i32p_xpulpv2 [0] (example_i32\<lparr>nPE_i32 := 1\<rparr>) = Some s \<and>
      pDstC_i32 p = pDstC_i32 s) \<and>
   (\<exists>p s. run_cores_ub plp_mat_mult_trans_cmplx_stride_i16p_xpulpv2 [2, 0, 1] (example_c16\<lparr>nPE_c16 := 3\<rparr>)
        = Some (Inr p) \<and>
      run_cores_ub plp_mat_mult_trans_cmplx_stride_i16p_xpulpv2 [0] (example_c16\<lparr>nPE_c16 := 1\<rparr>)
        = Some (Inr s) \<and>
      pDstC_c16 p = pDstC_c16 s) \<and>
   (\<exists>p s. run_cores plp_mat_sub_stride_i16p_xpulpv2 [2, 0, 1] (example_s16\<lparr>nPE_s16 := 3\<rparr>) = Some p \<and>
      run_cores plp_mat_sub_stride_i16p_xpulpv2 [0] (example_s16\<lparr>nPE_s16 := 1\<rparr>) = Some s \<and>
      pDst_s16 p = pDst_s16 s)"
proof -
  have 1: "valid_i32 example_i32"
    by (simp add: valid_i32_def example_i32_def)
  have 2: "valid_c16 example_c16"
    by (simp add: valid_c16_def example_c16_def)
  have 3: "valid_s16 example_s16"
    by (simp add: valid_s16_def example_s16_def)
  have 4: "(0 :: u32) < 3"
    by simp
  have 5: "set [2, 0, 1] = {c :: u32. c < 3}"
    by (auto simp: less_3_u32)
  from partition_invariance [OF 1 2 3 4 5] 1 2 3 4 5 show ?thesis
    by (intro conjI) simp_all
qed

text \<open>
  C4. Once every worker has run, for every output position \<open>(m, col)\<close> the primitive
  offsets \<open>(m * strideC + col) * 2\<close> and \<open>(m * strideC + col) * 2 + 1\<close> hold the sums over
  \<open>n < N\<close> of \<open>a_re * b_re - a_im * b_im\<close> and of \<open>a_re * b_im + a_im * b_re\<close>, where the
  real part of an input element is read at \<open>(row * stride + n) * 2\<close> and the imaginary part
  at \<open>(row * stride + n) * 2 + 1\<close>, each sign-extended to 32 bits. A valid descriptor has
  \<open>N\<close> and \<open>O\<close> below \<open>2 ^ 31\<close>, so that no \<open>int\<close> counter overflows and the call is defined.
  The worked example \<open>A = [(1, 2)]\<close>, \<open>B = [(3, 4)]\<close> with the result \<open>(-5, 10)\<close> is the
  witness.
\<close>

theorem mat_mult_trans_cmplx_stride_i16_result:
  assumes "valid_c16 a" and "0 < nPE_c16 a" and "set cs = {c. c < nPE_c16 a}"
  shows "\<exists>a'. run_cores_ub plp_mat_mult_trans_cmplx_stride_i16p_xpulpv2 cs a = Some (Inr a') \<and>
    (\<forall>m col. m < M_c16 a \<longrightarrow> col < O_c16 a \<longrightarrow>
       pDstC_c16 a' ((m * strideC_c16 a + col) * 2) =
         (\<Sum>n = 0..<unat (N_c16 a).
            scast (pSrcA_c16 a ((m * strideA_c16 a + of_nat n) * 2))
              * scast (pSrcB_c16 a ((col * strideB_c16 a + of_nat n) * 2))
            - scast (pSrcA_c16 a ((m * strideA_c16 a + of_nat n) * 2 + 1))
              * scast (pSrcB_c16 a ((col * strideB_c16 a + of_nat n) * 2 + 1))) \<and>
       pDstC_c16 a' ((m * strideC_c16 a + col) * 2 + 1) =
         (\<Sum>n = 0..<unat (N_c16 a).
            scast (pSrcA_c16 a ((m * strideA_c16 a + of_nat n) * 2))
              * scast (pSrcB_c16 a ((col * strideB_c16 a + of_nat n) * 2 + 1))
            + scast (pSrcA_c16 a ((m * strideA_c16 a + of_nat n) * 2 + 1))
              * scast (pSrcB_c16 a ((col * strideB_c16 a + of_nat n) * 2))))"
proof -
  have ok: "counter_ok (M_c16 a) (nPE_c16 a)"
    using assms(1,2) by (simp add: valid_c16_def counter_ok_valid)
  let ?rs = "concat (map (rows_of (M_c16 a) (nPE_c16 a)) cs)"
  have rows: "set ?rs = {r. r < M_c16 a}"
    by (rule schedule_rows [OF ok assms(3)])
  have N: "unat (N_c16 a) < 2 ^ 31" and O: "unat (O_c16 a) < 2 ^ 31"
    using assms(1) by (simp_all add: valid_c16_def)
  have "run_cores_ub plp_mat_mult_trans_cmplx_stride_i16p_xpulpv2 cs (a\<lparr>pDstC_c16 := pDstC_c16 a\<rparr>) =
     Some (Inr (a\<lparr>pDstC_c16 := store_all (concat (map (stores_c16 a) ?rs)) (pDstC_c16 a)\<rparr>))"
    by (rule run_cores_c16 [OF N O ok])
  then have run: "run_cores_ub plp_mat_mult_trans_cmplx_stride_i16p_xpulpv2 cs a =
     Some (Inr (a\<lparr>pDstC_c16 := store_all (concat (map (stores_c16 a) ?rs)) (pDstC_c16 a)\<rparr>))"
    by simp
  have below: "r < M_c16 a" if "r \<in> set ?rs" for r
    using that by (simp only: rows mem_Collect_eq)
  have "store_all (concat (map (stores_c16 a) ?rs)) (pDstC_c16 a) ((m * strideC_c16 a + col) * 2)
          = re_c16 a m col \<and>
        store_all (concat (map (stores_c16 a) ?rs)) (pDstC_c16 a) ((m * strideC_c16 a + col) * 2 + 1)
          = im_c16 a m col"
    if "m < M_c16 a" "col < O_c16 a" for m col
  proof -
    have "m \<in> set ?rs"
      using that(1) by (simp only: rows mem_Collect_eq)
    from final_c16 [OF assms(1) below this that(2)] show ?thesis
      by simp
  qed
  with run show ?thesis
    by (simp add: re_c16_def im_c16_def)
qed

theorem mat_mult_trans_cmplx_stride_i16_result_witness:
  "valid_c16 example_c16 \<and> 0 < nPE_c16 example_c16 \<and>
   set [0] = {c. c < nPE_c16 example_c16} \<and>
   (\<exists>a'. run_cores_ub plp_mat_mult_trans_cmplx_stride_i16p_xpulpv2 [0] example_c16 = Some (Inr a') \<and>
      pDstC_c16 a' 0 = - 5 \<and> pDstC_c16 a' 1 = 10)"
proof -
  have v: "valid_c16 example_c16"
    by (simp add: valid_c16_def example_c16_def)
  have p: "0 < nPE_c16 example_c16"
    by (simp add: example_c16_def)
  have s: "set [0] = {c. c < nPE_c16 example_c16}"
    by (simp add: example_c16_def less_1_u32)
  from mat_mult_trans_cmplx_stride_i16_result [OF v p s]
  obtain a' where run: "run_cores_ub plp_mat_mult_trans_cmplx_stride_i16p_xpulpv2 [0] example_c16 = Some (Inr a')"
    and out: "\<forall>m col. m < M_c16 example_c16 \<longrightarrow> col < O_c16 example_c16 \<longrightarrow>
       pDstC_c16 a' ((m * strideC_c16 example_c16 + col) * 2) =
         (\<Sum>n = 0..<unat (N_c16 example_c16).
            scast (pSrcA_c16 example_c16 ((m * strideA_c16 example_c16 + of_nat n) * 2))
              * scast (pSrcB_c16 example_c16 ((col * strideB_c16 example_c16 + of_nat n) * 2))
            - scast (pSrcA_c16 example_c16 ((m * strideA_c16 example_c16 + of_nat n) * 2 + 1))
              * scast (pSrcB_c16 example_c16 ((col * strideB_c16 example_c16 + of_nat n) * 2 + 1))) \<and>
       pDstC_c16 a' ((m * strideC_c16 example_c16 + col) * 2 + 1) =
         (\<Sum>n = 0..<unat (N_c16 example_c16).
            scast (pSrcA_c16 example_c16 ((m * strideA_c16 example_c16 + of_nat n) * 2))
              * scast (pSrcB_c16 example_c16 ((col * strideB_c16 example_c16 + of_nat n) * 2 + 1))
            + scast (pSrcA_c16 example_c16 ((m * strideA_c16 example_c16 + of_nat n) * 2 + 1))
              * scast (pSrcB_c16 example_c16 ((col * strideB_c16 example_c16 + of_nat n) * 2)))"
    by blast
  have "pDstC_c16 a' 0 = - 5 \<and> pDstC_c16 a' 1 = 10"
    using out [rule_format, of 0 0] by (simp add: example_c16_def)
  with v p s run show ?thesis by blast
qed

text \<open>
  C5. Once every worker has run, for every row \<open>m < M\<close> and column \<open>n < N\<close> the output
  element at offset \<open>m * strideY + n\<close> is \<open>A[m * strideA + n] - B[m * strideB + n]\<close>, the
  difference in 16-bit arithmetic; each buffer is addressed at its own stride.
\<close>

theorem mat_sub_stride_i16_result:
  assumes "valid_s16 a" and "0 < nPE_s16 a" and "set cs = {c. c < nPE_s16 a}"
  shows "\<exists>a'. run_cores plp_mat_sub_stride_i16p_xpulpv2 cs a = Some a' \<and>
    (\<forall>m n. m < M_s16 a \<longrightarrow> n < N_s16 a \<longrightarrow>
       pDst_s16 a' (m * strideY_s16 a + n) =
         pSrcA_s16 a (m * strideA_s16 a + n) - pSrcB_s16 a (m * strideB_s16 a + n))"
proof -
  have ok: "counter_ok (M_s16 a) (nPE_s16 a)"
    using assms(1,2) by (simp add: valid_s16_def counter_ok_valid)
  let ?rs = "concat (map (rows_of (M_s16 a) (nPE_s16 a)) cs)"
  have rows: "set ?rs = {r. r < M_s16 a}"
    by (rule schedule_rows [OF ok assms(3)])
  have "run_cores plp_mat_sub_stride_i16p_xpulpv2 cs (a\<lparr>pDst_s16 := pDst_s16 a\<rparr>) =
     Some (a\<lparr>pDst_s16 := store_all (concat (map (stores_s16 a) ?rs)) (pDst_s16 a)\<rparr>)"
    by (rule run_cores_s16 [OF ok])
  then have run: "run_cores plp_mat_sub_stride_i16p_xpulpv2 cs a =
     Some (a\<lparr>pDst_s16 := store_all (concat (map (stores_s16 a) ?rs)) (pDst_s16 a)\<rparr>)"
    by simp
  have "store_all (concat (map (stores_s16 a) ?rs)) (pDst_s16 a) (m * strideY_s16 a + n) =
          pSrcA_s16 a (m * strideA_s16 a + n) - pSrcB_s16 a (m * strideB_s16 a + n)"
    if "m < M_s16 a" "n < N_s16 a" for m n
  proof (rule final_s16 [OF assms(1) _ _ that(2)])
    show "r < M_s16 a" if "r \<in> set ?rs" for r
      using that by (simp only: rows mem_Collect_eq)
    show "m \<in> set ?rs"
      using that(1) by (simp only: rows mem_Collect_eq)
  qed
  with run show ?thesis
    by simp
qed

theorem mat_sub_stride_i16_result_witness:
  "valid_s16 example_s16 \<and> 0 < nPE_s16 example_s16 \<and>
   set [0, 1] = {c. c < nPE_s16 example_s16} \<and>
   (\<exists>a'. run_cores plp_mat_sub_stride_i16p_xpulpv2 [0, 1] example_s16 = Some a' \<and>
      pDst_s16 a' 3 = 7)"
proof -
  have v: "valid_s16 example_s16"
    by (simp add: valid_s16_def example_s16_def)
  have p: "0 < nPE_s16 example_s16"
    by (simp add: example_s16_def)
  have s: "set [0, 1] = {c. c < nPE_s16 example_s16}"
    by (simp add: example_s16_def less_2_u32)
  from mat_sub_stride_i16_result [OF v p s]
  obtain a' where run: "run_cores plp_mat_sub_stride_i16p_xpulpv2 [0, 1] example_s16 = Some a'"
    and out: "\<And>m n. m < M_s16 example_s16 \<Longrightarrow> n < N_s16 example_s16 \<Longrightarrow>
       pDst_s16 a' (m * strideY_s16 example_s16 + n) =
         pSrcA_s16 example_s16 (m * strideA_s16 example_s16 + n)
           - pSrcB_s16 example_s16 (m * strideB_s16 example_s16 + n)"
    by blast
  have "pDst_s16 a' 3 = 7"
    using out [of 1 1] by (simp add: example_s16_def)
  with v p s run show ?thesis by blast
qed

subsection \<open>One worker\<close>

lemma counter_ok_nowrap: "0 < nPE \<Longrightarrow> unat M + unat nPE \<le> 2 ^ 32 \<Longrightarrow> counter_ok M nPE"
  by (simp add: counter_ok_def)

lemma rows_visited_empty: "\<not> c < M \<Longrightarrow> rows_visited M nPE c = Some []"
  unfolding rows_visited_def by (subst stride_loop.simps) simp


text \<open>
  C1 (amended). When \<open>nPE \<ge> 1\<close> and the row counter cannot wrap
  (\<open>M + nPE \<le> 2 ^ 32\<close>), the outer loop of worker \<open>c\<close> returns and visits exactly the rows
  \<open>r < M\<close> of the form \<open>c + k * nPE\<close>, each once; and every row \<open>r < M\<close> is visited by
  exactly one worker \<open>c < nPE\<close>.
\<close>

theorem cyclic_partition:
  assumes "0 < nPE" and "unat M + unat nPE \<le> 2 ^ 32"
  shows "(\<forall>c. \<exists>rs. rows_visited M nPE c = Some rs \<and> distinct rs \<and>
              set rs = {r. r < M \<and> assigned nPE c r}) \<and>
         (\<forall>r. r < M \<longrightarrow> (\<exists>!c. c < nPE \<and> (\<exists>rs. rows_visited M nPE c = Some rs \<and> r \<in> set rs)))"
proof (intro conjI allI impI)
  have ok: "counter_ok M nPE"
    using assms by (rule counter_ok_nowrap)
  fix c
  from rows_visited_Some [OF ok] obtain rs where rs: "rows_visited M nPE c = Some rs"
    by blast
  from rows_visited_nowrap [OF assms rs]
  have "set rs = {r. r < M \<and> assigned nPE c r}" "sorted_wrt (<) rs"
    by simp_all
  then have "distinct rs \<and> set rs = {r. r < M \<and> assigned nPE c r}"
    by (simp add: strict_sorted_iff)
  with rs show "\<exists>rs. rows_visited M nPE c = Some rs \<and> distinct rs \<and>
      set rs = {r. r < M \<and> assigned nPE c r}"
    by blast
next
  have ok: "counter_ok M nPE"
    using assms by (rule counter_ok_nowrap)
  fix r assume r: "r < M"
  from assigned_owner [OF assms(1)] obtain c where c: "c < nPE" "assigned nPE c r"
    by blast
  from rows_visited_Some [OF ok] obtain rs where rs: "rows_visited M nPE c = Some rs"
    by blast
  have "r \<in> set rs"
    using rows_visited_assigned [OF ok rs r c(2)] .
  show "\<exists>!c. c < nPE \<and> (\<exists>rs. rows_visited M nPE c = Some rs \<and> r \<in> set rs)"
  proof (rule ex1I [of _ c])
    show "c < nPE \<and> (\<exists>rs. rows_visited M nPE c = Some rs \<and> r \<in> set rs)"
      using c(1) rs \<open>r \<in> set rs\<close> by blast
  next
    fix c' assume "c' < nPE \<and> (\<exists>rs. rows_visited M nPE c' = Some rs \<and> r \<in> set rs)"
    then obtain rs' where c': "c' < nPE" "rows_visited M nPE c' = Some rs'" "r \<in> set rs'"
      by blast
    from rows_visited_nowrap [OF assms c'(2)] c'(3) have "assigned nPE c' r"
      by simp
    with c c'(1) show "c' = c"
      using assigned_unique by blast
  qed
qed

theorem cyclic_partition_witness:
  "(0 :: u32) < 2 \<and> unat (5 :: u32) + unat (2 :: u32) \<le> 2 ^ 32 \<and>
   (\<exists>rs. rows_visited 5 2 1 = Some rs \<and> distinct rs \<and> set rs = {r. r < 5 \<and> assigned 2 1 r}) \<and>
   (\<exists>!c. c < 2 \<and> (\<exists>rs. rows_visited 5 2 c = Some rs \<and> 3 \<in> set rs)) \<and>
   rows_visited 5 2 0 = Some [0, 2, 4] \<and> rows_visited 5 2 1 = Some [1, 3]"
proof -
  have 1: "(0 :: u32) < 2" by simp
  have 2: "unat (5 :: u32) + unat (2 :: u32) \<le> 2 ^ 32" by simp
  have 3: "(3 :: u32) < 5" by simp
  have 4: "rows_visited 5 2 0 = Some [0, 2, 4]" "rows_visited 5 2 1 = Some [1, 3]"
    by (simp_all add: rows_visited_def stride_loop.simps)
  from cyclic_partition [OF 1 2] 3 1 2 4 show ?thesis
    by blast
qed

theorem cyclic_partition_counterexample:
  "(0 :: u32) < 0xFFFFFFFF \<and>
   rows_visited 5 0xFFFFFFFF 0 = Some [0] \<and>
   rows_visited 5 0xFFFFFFFF 3 = Some [3, 2, 1, 0] \<and>
   \<not> (\<exists>!c :: u32. c < 0xFFFFFFFF \<and> (\<exists>rs. rows_visited 5 0xFFFFFFFF c = Some rs \<and> 0 \<in> set rs))"
proof -
  have 0: "rows_visited 5 0xFFFFFFFF 0 = Some [0]"
    by (simp add: rows_visited_def stride_loop.simps)
  have 3: "rows_visited 5 0xFFFFFFFF 3 = Some [3, 2, 1, 0]"
    by (simp add: rows_visited_def stride_loop.simps)
  have "\<not> (\<exists>!c :: u32. c < 0xFFFFFFFF \<and> (\<exists>rs. rows_visited 5 0xFFFFFFFF c = Some rs \<and> 0 \<in> set rs))"
  proof
    assume "\<exists>!c :: u32. c < 0xFFFFFFFF \<and> (\<exists>rs. rows_visited 5 0xFFFFFFFF c = Some rs \<and> 0 \<in> set rs)"
    moreover have "(0 :: u32) < 0xFFFFFFFF \<and> (\<exists>rs. rows_visited 5 0xFFFFFFFF 0 = Some rs \<and> 0 \<in> set rs)"
      using 0 by simp
    moreover have "(3 :: u32) < 0xFFFFFFFF \<and> (\<exists>rs. rows_visited 5 0xFFFFFFFF 3 = Some rs \<and> 0 \<in> set rs)"
      using 3 by simp
    ultimately have "(0 :: u32) = 3"
      by blast
    then show False by simp
  qed
  with 0 3 show ?thesis by simp
qed

lemma trace_s16_Store:
  "Store i \<in> set (concat (map (trace_s16 a) rs)) \<longleftrightarrow>
     (\<exists>m\<in>set rs. \<exists>n. n < N_s16 a \<and> i = m * strideY_s16 a + n)"
  by (auto simp: trace_s16_def set_upto32)

text \<open>
  C6 (amended). For a descriptor with \<open>nPE \<ge> 1\<close>, \<open>M + nPE \<le> 2 ^ 32\<close>, output stride at
  least \<open>N\<close> and output indices within 32 bits, one invocation of the subtraction kernel
  with any \<open>core_id\<close> returns; it leaves both input buffers as they were; every store goes
  to an element \<open>m * strideY + n\<close> of a row \<open>m < M\<close> of the form \<open>core_id + k * nPE\<close>; the
  output is unchanged wherever no store went, in particular in every row of another
  worker; and a worker with \<open>core_id \<ge> M\<close> makes no access and changes nothing.
\<close>

theorem mat_sub_stride_i16_frame:
  assumes "0 < nPE_s16 a" and "unat (M_s16 a) + unat (nPE_s16 a) \<le> 2 ^ 32"
    and "unat (N_s16 a) \<le> unat (strideY_s16 a)"
    and "unat (M_s16 a) * unat (strideY_s16 a) \<le> 2 ^ 32"
  shows "\<exists>a' tr. plp_mat_sub_stride_i16p_xpulpv2 core_id a = Some (a', tr) \<and>
     pSrcA_s16 a' = pSrcA_s16 a \<and> pSrcB_s16 a' = pSrcB_s16 a \<and>
     (\<forall>i. Store i \<in> set tr \<longrightarrow>
        (\<exists>m n. m < M_s16 a \<and> assigned (nPE_s16 a) core_id m \<and> n < N_s16 a \<and>
           i = m * strideY_s16 a + n)) \<and>
     (\<forall>i. Store i \<notin> set tr \<longrightarrow> pDst_s16 a' i = pDst_s16 a i) \<and>
     (\<forall>m n. m < M_s16 a \<longrightarrow> \<not> assigned (nPE_s16 a) core_id m \<longrightarrow> n < N_s16 a \<longrightarrow>
        pDst_s16 a' (m * strideY_s16 a + n) = pDst_s16 a (m * strideY_s16 a + n)) \<and>
     (M_s16 a \<le> core_id \<longrightarrow> a' = a \<and> tr = [])"
proof -
  have ok: "counter_ok (M_s16 a) (nPE_s16 a)"
    using assms(1,2) by (rule counter_ok_nowrap)
  from rows_visited_Some [OF ok] obtain rs
    where rs: "rows_visited (M_s16 a) (nPE_s16 a) core_id = Some rs"
    by blast
  have set_rs: "set rs = {r. r < M_s16 a \<and> assigned (nPE_s16 a) core_id r}"
    using rows_visited_nowrap [OF assms(1,2) rs] by simp
  let ?D = "store_all (concat (map (stores_s16 a) rs)) (pDst_s16 a)"
  let ?T = "concat (map (trace_s16 a) rs)"
  have run: "plp_mat_sub_stride_i16p_xpulpv2 core_id a = Some (a\<lparr>pDst_s16 := ?D\<rparr>, ?T)"
    by (rule kernel_s16_eq [OF ok rs])
  have stores: "\<exists>m n. m < M_s16 a \<and> assigned (nPE_s16 a) core_id m \<and> n < N_s16 a \<and>
      i = m * strideY_s16 a + n" if "Store i \<in> set ?T" for i
    using that unfolding trace_s16_Store set_rs by blast
  have frame: "?D i = pDst_s16 a i" if "Store i \<notin> set ?T" for i
  proof (rule frame_s16)
    fix m n assume "m \<in> set rs" "n < N_s16 a"
    with that show "i \<noteq> m * strideY_s16 a + n"
      unfolding trace_s16_Store by blast
  qed
  have others: "?D (m * strideY_s16 a + n) = pDst_s16 a (m * strideY_s16 a + n)"
    if m: "m < M_s16 a" "\<not> assigned (nPE_s16 a) core_id m" and n: "n < N_s16 a" for m n
  proof (rule frame_s16)
    fix m' n' assume m': "m' \<in> set rs" and n': "n' < N_s16 a"
    from m' have lt: "m' < M_s16 a" and as: "assigned (nPE_s16 a) core_id m'"
      unfolding set_rs by simp_all
    show "m * strideY_s16 a + n \<noteq> m' * strideY_s16 a + n'"
    proof
      assume "m * strideY_s16 a + n = m' * strideY_s16 a + n'"
      from offset_inj [OF m(1) lt n n' assms(3,4) this] as m(2) show False
        by simp
    qed
  qed
  have empty: "a\<lparr>pDst_s16 := ?D\<rparr> = a \<and> ?T = []" if "M_s16 a \<le> core_id"
  proof -
    from that have "\<not> core_id < M_s16 a" by simp
    from rows_visited_empty [OF this] rs have "rs = []" by simp
    then show ?thesis by (simp add: store_all_Nil)
  qed
  from run stores frame others empty show ?thesis
    by simp
qed

lemma not_assigned_2_0_1: "\<not> assigned 2 0 (1 :: u32)"
proof
  assume "assigned 2 0 (1 :: u32)"
  then obtain k where "unat (1 :: u32) = unat (0 :: u32) + k * unat (2 :: u32)"
    unfolding assigned_def by blast
  then have "1 = k * 2" by simp
  then show False by presburger
qed

theorem mat_sub_stride_i16_frame_witness:
  "0 < nPE_s16 example_s16 \<and> unat (M_s16 example_s16) + unat (nPE_s16 example_s16) \<le> 2 ^ 32 \<and>
   unat (N_s16 example_s16) \<le> unat (strideY_s16 example_s16) \<and>
   unat (M_s16 example_s16) * unat (strideY_s16 example_s16) \<le> 2 ^ 32 \<and>
   (\<exists>a' tr. plp_mat_sub_stride_i16p_xpulpv2 0 example_s16 = Some (a', tr) \<and>
      pSrcA_s16 a' = pSrcA_s16 example_s16 \<and> pSrcB_s16 a' = pSrcB_s16 example_s16 \<and>
      pDst_s16 a' 2 = 0 \<and> pDst_s16 a' 3 = 0)"
proof -
  have 1: "0 < nPE_s16 example_s16"
    and 2: "unat (M_s16 example_s16) + unat (nPE_s16 example_s16) \<le> 2 ^ 32"
    and 3: "unat (N_s16 example_s16) \<le> unat (strideY_s16 example_s16)"
    and 4: "unat (M_s16 example_s16) * unat (strideY_s16 example_s16) \<le> 2 ^ 32"
    by (simp_all add: example_s16_def)
  from mat_sub_stride_i16_frame [OF 1 2 3 4, of 0]
  obtain a' tr where run: "plp_mat_sub_stride_i16p_xpulpv2 0 example_s16 = Some (a', tr)"
    and src: "pSrcA_s16 a' = pSrcA_s16 example_s16" "pSrcB_s16 a' = pSrcB_s16 example_s16"
    and others: "\<And>m n. m < M_s16 example_s16 \<Longrightarrow> \<not> assigned (nPE_s16 example_s16) 0 m \<Longrightarrow>
        n < N_s16 example_s16 \<Longrightarrow>
        pDst_s16 a' (m * strideY_s16 example_s16 + n) = pDst_s16 example_s16 (m * strideY_s16 example_s16 + n)"
    by blast
  have "pDst_s16 a' 2 = 0" "pDst_s16 a' 3 = 0"
    using others [of 1 0] others [of 1 1] not_assigned_2_0_1
    by (simp_all add: example_s16_def)
  with 1 2 3 4 run src show ?thesis by blast
qed

lemma not_assigned_wrap: "\<not> assigned 0xFFFFFFFF 3 (0 :: u32)"
proof
  assume "assigned 0xFFFFFFFF 3 (0 :: u32)"
  then obtain k where "unat (0 :: u32) = unat (3 :: u32) + k * unat (0xFFFFFFFF :: u32)"
    unfolding assigned_def by blast
  then show False by simp
qed

theorem mat_sub_stride_i16_frame_counterexample:
  "0 < nPE_s16 wrapping_s16 \<and>
   unat (N_s16 wrapping_s16) \<le> unat (strideY_s16 wrapping_s16) \<and>
   unat (M_s16 wrapping_s16) * unat (strideY_s16 wrapping_s16) \<le> 2 ^ 32 \<and>
   (0 :: u32) < M_s16 wrapping_s16 \<and> (0 :: u32) < N_s16 wrapping_s16 \<and>
   \<not> assigned (nPE_s16 wrapping_s16) 3 0 \<and>
   pDst_s16 wrapping_s16 (0 * strideY_s16 wrapping_s16 + 0) = 0 \<and>
   map_option (\<lambda>(a', tr). pDst_s16 a' (0 * strideY_s16 wrapping_s16 + 0))
     (plp_mat_sub_stride_i16p_xpulpv2 3 wrapping_s16) = Some 1"
proof -
  have "map_option (\<lambda>(a', tr). pDst_s16 a' (0 * strideY_s16 wrapping_s16 + 0))
     (plp_mat_sub_stride_i16p_xpulpv2 3 wrapping_s16) = Some 1"
    by (simp add: plp_mat_sub_stride_i16p_xpulpv2_def wrapping_s16_def stride_loop.simps
        row_s16_def for_loop.simps elem_s16_def)
  moreover have "\<not> assigned (nPE_s16 wrapping_s16) 3 0"
    using not_assigned_wrap by (simp add: wrapping_s16_def)
  ultimately show ?thesis
    by (simp add: wrapping_s16_def)
qed

lemma stride_loop_stuck:
  fixes body :: "u32 \<Rightarrow> 's \<Rightarrow> 's"
  assumes "stride_loop body M nPE m s = Some y"
  shows "M = 0xFFFFFFFF \<longrightarrow> nPE = 0x80000000 \<longrightarrow> m \<noteq> 0 \<and> m \<noteq> 0x80000000"
proof (rule stride_loop.raw_induct [rotated 1,
      where P = "\<lambda>body M nPE m s y. M = 0xFFFFFFFF \<longrightarrow> nPE = 0x80000000 \<longrightarrow> m \<noteq> 0 \<and> m \<noteq> 0x80000000"],
    rule assms)
  fix f :: "(u32 \<Rightarrow> 's \<Rightarrow> 's) \<Rightarrow> u32 \<Rightarrow> u32 \<Rightarrow> u32 \<Rightarrow> 's \<Rightarrow> 's option"
    and body :: "u32 \<Rightarrow> 's \<Rightarrow> 's" and M nPE m :: u32 and s y :: 's
  assume IH: "\<And>body M nPE m s y. f body M nPE m s = Some y \<Longrightarrow>
      M = 0xFFFFFFFF \<longrightarrow> nPE = 0x80000000 \<longrightarrow> m \<noteq> 0 \<and> m \<noteq> 0x80000000"
    and eq: "(if m < M then f body M nPE (m + nPE) (body m s) else Some s) = Some y"
  show "M = 0xFFFFFFFF \<longrightarrow> nPE = 0x80000000 \<longrightarrow> m \<noteq> 0 \<and> m \<noteq> 0x80000000"
  proof (intro impI, rule ccontr)
    assume M: "M = 0xFFFFFFFF" and nPE: "nPE = 0x80000000"
      and "\<not> (m \<noteq> 0 \<and> m \<noteq> 0x80000000)"
    then have m: "m = 0 \<or> m = 0x80000000" by blast
    with M have "m < M" by auto
    with eq have "f body M nPE (m + nPE) (body m s) = Some y"
      by simp
    from IH [OF this] M nPE have "m + 0x80000000 \<noteq> 0 \<and> m + 0x80000000 \<noteq> 0x80000000"
      by simp
    with m show False by auto
  qed
qed

lemma stride_loop_stuck_None: "stride_loop body 0xFFFFFFFF 0x80000000 0 s = None"
proof (cases "stride_loop body 0xFFFFFFFF 0x80000000 0 s")
  case None
  then show ?thesis .
next
  case (Some y)
  from stride_loop_stuck [OF this] show ?thesis by simp
qed

lemma kernel_i32_Some:
  assumes "counter_ok (M_i32 a) (nPE_i32 a)"
  shows "\<exists>r. plp_mat_mult_trans_stride_i32p_xpulpv2 c a = Some r"
  using rows_visited_Some [OF assms, of c] kernel_i32_eq [OF assms] by blast

lemma kernel_c16_Some:
  assumes "unat (N_c16 a) < 2 ^ 31" and "unat (O_c16 a) < 2 ^ 31"
    and "counter_ok (M_c16 a) (nPE_c16 a)"
  shows "\<exists>r. plp_mat_mult_trans_cmplx_stride_i16p_xpulpv2 c a = Some (Inr r)"
  using rows_visited_Some [OF assms(3), of c] kernel_c16_eq [OF assms] by blast

lemma kernel_s16_Some:
  assumes "counter_ok (M_s16 a) (nPE_s16 a)"
  shows "\<exists>r. plp_mat_sub_stride_i16p_xpulpv2 c a = Some r"
  using rows_visited_Some [OF assms, of c] kernel_s16_eq [OF assms] by blast

text \<open>
  C9 (amended). When \<open>nPE \<ge> 1\<close> and \<open>M + nPE \<le> 2 ^ 32\<close>, the outer loop started at any
  \<open>core_id\<close> returns after visiting strictly increasing rows, and each of the three
  kernels, on every descriptor with these \<open>M\<close> and \<open>nPE\<close> and any \<open>N\<close>, \<open>O\<close>, strides and
  buffers, returns a result; the complex kernel when its \<open>N\<close> and \<open>O\<close> are below \<open>2 ^ 31\<close>, so
  that its \<open>int\<close> counters do not overflow, and its run is then a defined one.
\<close>

theorem kernels_terminate:
  assumes "0 < nPE" and "unat M + unat nPE \<le> 2 ^ 32"
  shows "(\<exists>rs. rows_visited M nPE core_id = Some rs \<and> sorted_wrt (<) rs) \<and>
     (\<forall>a. M_i32 a = M \<longrightarrow> nPE_i32 a = nPE \<longrightarrow>
        (\<exists>r. plp_mat_mult_trans_stride_i32p_xpulpv2 core_id a = Some r)) \<and>
     (\<forall>b. M_c16 b = M \<longrightarrow> nPE_c16 b = nPE \<longrightarrow>
        unat (N_c16 b) < 2 ^ 31 \<longrightarrow> unat (O_c16 b) < 2 ^ 31 \<longrightarrow>
        (\<exists>r. plp_mat_mult_trans_cmplx_stride_i16p_xpulpv2 core_id b = Some (Inr r))) \<and>
     (\<forall>d. M_s16 d = M \<longrightarrow> nPE_s16 d = nPE \<longrightarrow>
        (\<exists>r. plp_mat_sub_stride_i16p_xpulpv2 core_id d = Some r))"
proof -
  have ok: "counter_ok M nPE"
    using assms by (rule counter_ok_nowrap)
  from rows_visited_Some [OF ok] obtain rs where rs: "rows_visited M nPE core_id = Some rs"
    by blast
  with rows_visited_nowrap [OF assms rs]
  have "\<exists>rs. rows_visited M nPE core_id = Some rs \<and> sorted_wrt (<) rs"
    by blast
  moreover have "\<exists>r. plp_mat_mult_trans_stride_i32p_xpulpv2 core_id a = Some r"
    if "M_i32 a = M" "nPE_i32 a = nPE" for a
    using kernel_i32_Some [of a core_id] ok that by simp
  moreover have "\<exists>r. plp_mat_mult_trans_cmplx_stride_i16p_xpulpv2 core_id b = Some (Inr r)"
    if "M_c16 b = M" "nPE_c16 b = nPE" "unat (N_c16 b) < 2 ^ 31" "unat (O_c16 b) < 2 ^ 31" for b
    using kernel_c16_Some [of b core_id] ok that by simp
  moreover have "\<exists>r. plp_mat_sub_stride_i16p_xpulpv2 core_id d = Some r"
    if "M_s16 d = M" "nPE_s16 d = nPE" for d
    using kernel_s16_Some [of d core_id] ok that by simp
  ultimately show ?thesis by blast
qed

theorem kernels_terminate_witness:
  "(0 :: u32) < 2 \<and> unat (2 :: u32) + unat (2 :: u32) \<le> 2 ^ 32 \<and>
   M_i32 example_i32 = 2 \<and> nPE_i32 example_i32 = 2 \<and>
   M_c16 (example_c16\<lparr>M_c16 := 2, nPE_c16 := 2\<rparr>) = 2 \<and>
   nPE_c16 (example_c16\<lparr>M_c16 := 2, nPE_c16 := 2\<rparr>) = 2 \<and>
   unat (N_c16 (example_c16\<lparr>M_c16 := 2, nPE_c16 := 2\<rparr>)) < 2 ^ 31 \<and>
   unat (O_c16 (example_c16\<lparr>M_c16 := 2, nPE_c16 := 2\<rparr>)) < 2 ^ 31 \<and>
   M_s16 example_s16 = 2 \<and> nPE_s16 example_s16 = 2 \<and>
   (\<exists>rs. rows_visited 2 2 1 = Some rs \<and> sorted_wrt (<) rs) \<and>
   (\<exists>r. plp_mat_mult_trans_stride_i32p_xpulpv2 1 example_i32 = Some r) \<and>
   (\<exists>r. plp_mat_mult_trans_cmplx_stride_i16p_xpulpv2 1 (example_c16\<lparr>M_c16 := 2, nPE_c16 := 2\<rparr>)
      = Some (Inr r)) \<and>
   (\<exists>r. plp_mat_sub_stride_i16p_xpulpv2 1 example_s16 = Some r)"
proof -
  let ?b = "example_c16\<lparr>M_c16 := 2, nPE_c16 := 2\<rparr>"
  have 1: "(0 :: u32) < 2" by simp
  have 2: "unat (2 :: u32) + unat (2 :: u32) \<le> 2 ^ 32" by simp
  have 3: "M_i32 example_i32 = 2" "nPE_i32 example_i32 = 2"
    by (simp_all add: example_i32_def)
  have 4: "M_s16 example_s16 = 2" "nPE_s16 example_s16 = 2"
    by (simp_all add: example_s16_def)
  have 5: "M_c16 ?b = 2" "nPE_c16 ?b = 2" "unat (N_c16 ?b) < 2 ^ 31" "unat (O_c16 ?b) < 2 ^ 31"
    by (simp_all add: example_c16_def)
  from kernels_terminate [OF 1 2, of 1] 1 2 3 4 5 show ?thesis
    by blast
qed

theorem kernels_terminate_counterexample:
  "1 \<le> nPE_s16 stuck_s16 \<and> plp_mat_sub_stride_i16p_xpulpv2 0 stuck_s16 = None"
  by (simp add: plp_mat_sub_stride_i16p_xpulpv2_def stuck_s16_def stride_loop_stuck_None)

lemma upto32_0 [simp]: "upto32 0 = []"
  by (simp add: upto32_def)





























subsection \<open>Accumulators\<close>

lemma word_of_int_sum: "(word_of_int (sum f A) :: i32) = (\<Sum>n\<in>A. word_of_int (f n))"
  by (rule of_int_sum)

lemma wi_sint_mult: "(word_of_int (sint x * sint y) :: i32) = x * y" for x y :: i32
proof -
  have "(word_of_int (sint x * sint y) :: i32) = word_of_int (sint x) * word_of_int (sint y)"
    by (simp only: wi_hom_mult)
  then show ?thesis by simp
qed

lemma wi_sint_mult16: "(word_of_int (sint x * sint y) :: i32) = scast x * scast y" for x y :: i16
  by (simp only: scast_eq wi_hom_mult)

lemma dot_i32_exact: "dot_i32 a m col = word_of_int (exact_i32 a m col)"
  unfolding dot_i32_def exact_i32_def word_of_int_sum by (simp only: wi_sint_mult)

lemma re_c16_exact: "re_c16 a m col = word_of_int (exact_re_c16 a m col)"
  unfolding re_c16_def exact_re_c16_def word_of_int_sum
  by (simp only: wi_hom_sub [symmetric] wi_sint_mult16)

lemma im_c16_exact: "im_c16 a m col = word_of_int (exact_im_c16 a m col)"
  unfolding im_c16_def exact_im_c16_def word_of_int_sum
  by (simp only: wi_hom_add [symmetric] wi_sint_mult16)

lemma uint_wrap: "uint (word_of_int k :: i32) = k mod 2 ^ 32"
  by (simp add: uint_word_of_int)

lemma sint_fits: "- (2 ^ 31) \<le> k \<Longrightarrow> k < 2 ^ 31 \<Longrightarrow> sint (word_of_int k :: i32) = k"
  by (simp add: sint_sbintrunc' signed_take_bit_int_eq_self)

lemma result_i32:
  assumes "valid_i32 a" and "0 < nPE_i32 a" and "set cs = {c. c < nPE_i32 a}"
  shows "\<exists>a'. run_cores plp_mat_mult_trans_stride_i32p_xpulpv2 cs a = Some a' \<and>
    (\<forall>m col. m < M_i32 a \<longrightarrow> col < O_i32 a \<longrightarrow>
       pDstC_i32 a' (m * strideC_i32 a + col) = dot_i32 a m col)"
proof -
  have ok: "counter_ok (M_i32 a) (nPE_i32 a)"
    using assms(1,2) by (simp add: valid_i32_def counter_ok_valid)
  let ?rs = "concat (map (rows_of (M_i32 a) (nPE_i32 a)) cs)"
  have rows: "set ?rs = {r. r < M_i32 a}"
    by (rule schedule_rows [OF ok assms(3)])
  have "run_cores plp_mat_mult_trans_stride_i32p_xpulpv2 cs (a\<lparr>pDstC_i32 := pDstC_i32 a\<rparr>) =
     Some (a\<lparr>pDstC_i32 := store_all (concat (map (stores_i32 a) ?rs)) (pDstC_i32 a)\<rparr>)"
    by (rule run_cores_i32 [OF ok])
  then have run: "run_cores plp_mat_mult_trans_stride_i32p_xpulpv2 cs a =
     Some (a\<lparr>pDstC_i32 := store_all (concat (map (stores_i32 a) ?rs)) (pDstC_i32 a)\<rparr>)"
    by simp
  have "store_all (concat (map (stores_i32 a) ?rs)) (pDstC_i32 a) (m * strideC_i32 a + col) = dot_i32 a m col"
    if "m < M_i32 a" "col < O_i32 a" for m col
  proof (rule final_i32 [OF assms(1) _ _ that(2)])
    show "r < M_i32 a" if "r \<in> set ?rs" for r
      using that by (simp only: rows mem_Collect_eq)
    show "m \<in> set ?rs"
      using that(1) by (simp only: rows mem_Collect_eq)
  qed
  with run show ?thesis
    by simp
qed

lemma result_c16:
  assumes "valid_c16 a" and "0 < nPE_c16 a" and "set cs = {c. c < nPE_c16 a}"
  shows "\<exists>a'. run_cores_ub plp_mat_mult_trans_cmplx_stride_i16p_xpulpv2 cs a = Some (Inr a') \<and>
    (\<forall>m col. m < M_c16 a \<longrightarrow> col < O_c16 a \<longrightarrow>
       pDstC_c16 a' ((m * strideC_c16 a + col) * 2) = re_c16 a m col \<and>
       pDstC_c16 a' ((m * strideC_c16 a + col) * 2 + 1) = im_c16 a m col)"
proof -
  have ok: "counter_ok (M_c16 a) (nPE_c16 a)"
    using assms(1,2) by (simp add: valid_c16_def counter_ok_valid)
  let ?rs = "concat (map (rows_of (M_c16 a) (nPE_c16 a)) cs)"
  have rows: "set ?rs = {r. r < M_c16 a}"
    by (rule schedule_rows [OF ok assms(3)])
  have N: "unat (N_c16 a) < 2 ^ 31" and O: "unat (O_c16 a) < 2 ^ 31"
    using assms(1) by (simp_all add: valid_c16_def)
  have "run_cores_ub plp_mat_mult_trans_cmplx_stride_i16p_xpulpv2 cs (a\<lparr>pDstC_c16 := pDstC_c16 a\<rparr>) =
     Some (Inr (a\<lparr>pDstC_c16 := store_all (concat (map (stores_c16 a) ?rs)) (pDstC_c16 a)\<rparr>))"
    by (rule run_cores_c16 [OF N O ok])
  then have run: "run_cores_ub plp_mat_mult_trans_cmplx_stride_i16p_xpulpv2 cs a =
     Some (Inr (a\<lparr>pDstC_c16 := store_all (concat (map (stores_c16 a) ?rs)) (pDstC_c16 a)\<rparr>))"
    by simp
  have below: "r < M_c16 a" if "r \<in> set ?rs" for r
    using that by (simp only: rows mem_Collect_eq)
  have "store_all (concat (map (stores_c16 a) ?rs)) (pDstC_c16 a) ((m * strideC_c16 a + col) * 2)
          = re_c16 a m col \<and>
        store_all (concat (map (stores_c16 a) ?rs)) (pDstC_c16 a) ((m * strideC_c16 a + col) * 2 + 1)
          = im_c16 a m col"
    if "m < M_c16 a" "col < O_c16 a" for m col
  proof -
    have "m \<in> set ?rs"
      using that(1) by (simp only: rows mem_Collect_eq)
    from final_c16 [OF assms(1) below this that(2)] show ?thesis
      by simp
  qed
  with run show ?thesis
    by simp
qed

lemma trace_i32_src [simp]: "trace_i32 (a\<lparr>pSrcA_i32 := A, pSrcB_i32 := B\<rparr>) = trace_i32 a"
  by (rule ext) (simp add: trace_i32_def)

lemma trace_c16_src [simp]: "trace_c16 (a\<lparr>pSrcA_c16 := A, pSrcB_c16 := B\<rparr>) = trace_c16 a"
  by (rule ext) (simp add: trace_c16_def)

lemma accesses_i32:
  assumes ok: "counter_ok (M_i32 a) (nPE_i32 a)"
  shows "\<exists>r r2. plp_mat_mult_trans_stride_i32p_xpulpv2 c a = Some r \<and>
     plp_mat_mult_trans_stride_i32p_xpulpv2 c (a\<lparr>pSrcA_i32 := A, pSrcB_i32 := B\<rparr>) = Some r2 \<and>
     snd r2 = snd r"
proof -
  from rows_visited_Some [OF ok] obtain rs
    where rs: "rows_visited (M_i32 a) (nPE_i32 a) c = Some rs" by blast
  from kernel_i32_eq [OF ok rs]
    kernel_i32_eq [of "a\<lparr>pSrcA_i32 := A, pSrcB_i32 := B\<rparr>" c rs] ok rs
  show ?thesis by simp
qed

lemma accesses_c16:
  assumes N: "unat (N_c16 a) < 2 ^ 31" and O: "unat (O_c16 a) < 2 ^ 31"
    and ok: "counter_ok (M_c16 a) (nPE_c16 a)"
  shows "\<exists>r r2. plp_mat_mult_trans_cmplx_stride_i16p_xpulpv2 c a = Some (Inr r) \<and>
     plp_mat_mult_trans_cmplx_stride_i16p_xpulpv2 c (a\<lparr>pSrcA_c16 := A, pSrcB_c16 := B\<rparr>)
       = Some (Inr r2) \<and>
     snd r2 = snd r"
proof -
  from rows_visited_Some [OF ok] obtain rs
    where rs: "rows_visited (M_c16 a) (nPE_c16 a) c = Some rs" by blast
  from kernel_c16_eq [OF N O ok rs]
    kernel_c16_eq [of "a\<lparr>pSrcA_c16 := A, pSrcB_c16 := B\<rparr>" c rs] N O ok rs
  show ?thesis by simp
qed

text \<open>
  C8 (amended). The accumulators \<open>sum\<close>, \<open>sum_re\<close> and \<open>sum_im\<close> are 32-bit. Once every worker
  of a call has run, each output element is the exact integer sum of the products of the
  signed elements reduced modulo \<open>2 ^ 32\<close>, and it is that exact sum whenever the sum lies
  in the signed 32-bit range. A sum outside the range changes the value only: each
  invocation returns, and its access log is the same whatever the elements of the two
  inputs are. For the complex kernel a valid descriptor has \<open>N\<close> and \<open>O\<close> below \<open>2 ^ 31\<close>.
  The width is not enough for every input: the examples \<open>overflow_i32\<close> and
  \<open>overflow_c16\<close> exceed it with a single inner step.
\<close>

theorem accumulators_wrap:
  assumes "valid_i32 a" and "0 < nPE_i32 a" and "set cs = {c. c < nPE_i32 a}"
    and "valid_c16 b" and "0 < nPE_c16 b" and "set ds = {c. c < nPE_c16 b}"
  shows "(\<exists>a'. run_cores plp_mat_mult_trans_stride_i32p_xpulpv2 cs a = Some a' \<and>
      (\<forall>m col. m < M_i32 a \<longrightarrow> col < O_i32 a \<longrightarrow>
         uint (pDstC_i32 a' (m * strideC_i32 a + col)) = exact_i32 a m col mod 2 ^ 32 \<and>
         (- (2 ^ 31) \<le> exact_i32 a m col \<and> exact_i32 a m col < 2 ^ 31 \<longrightarrow>
            sint (pDstC_i32 a' (m * strideC_i32 a + col)) = exact_i32 a m col))) \<and>
    (\<exists>b'. run_cores_ub plp_mat_mult_trans_cmplx_stride_i16p_xpulpv2 ds b = Some (Inr b') \<and>
      (\<forall>m col. m < M_c16 b \<longrightarrow> col < O_c16 b \<longrightarrow>
         uint (pDstC_c16 b' ((m * strideC_c16 b + col) * 2)) = exact_re_c16 b m col mod 2 ^ 32 \<and>
         uint (pDstC_c16 b' ((m * strideC_c16 b + col) * 2 + 1)) = exact_im_c16 b m col mod 2 ^ 32 \<and>
         (- (2 ^ 31) \<le> exact_re_c16 b m col \<and> exact_re_c16 b m col < 2 ^ 31 \<longrightarrow>
            sint (pDstC_c16 b' ((m * strideC_c16 b + col) * 2)) = exact_re_c16 b m col) \<and>
         (- (2 ^ 31) \<le> exact_im_c16 b m col \<and> exact_im_c16 b m col < 2 ^ 31 \<longrightarrow>
            sint (pDstC_c16 b' ((m * strideC_c16 b + col) * 2 + 1)) = exact_im_c16 b m col))) \<and>
    (\<forall>core_id A B. \<exists>r r2.
        plp_mat_mult_trans_stride_i32p_xpulpv2 core_id a = Some r \<and>
        plp_mat_mult_trans_stride_i32p_xpulpv2 core_id (a\<lparr>pSrcA_i32 := A, pSrcB_i32 := B\<rparr>) = Some r2 \<and>
        snd r2 = snd r) \<and>
    (\<forall>core_id A B. \<exists>r r2.
        plp_mat_mult_trans_cmplx_stride_i16p_xpulpv2 core_id b = Some (Inr r) \<and>
        plp_mat_mult_trans_cmplx_stride_i16p_xpulpv2 core_id (b\<lparr>pSrcA_c16 := A, pSrcB_c16 := B\<rparr>)
          = Some (Inr r2) \<and>
        snd r2 = snd r)"
proof (intro conjI allI)
  from result_i32 [OF assms(1-3)] obtain a'
    where run: "run_cores plp_mat_mult_trans_stride_i32p_xpulpv2 cs a = Some a'"
      and out: "\<And>m col. m < M_i32 a \<Longrightarrow> col < O_i32 a \<Longrightarrow>
         pDstC_i32 a' (m * strideC_i32 a + col) = word_of_int (exact_i32 a m col)"
    unfolding dot_i32_exact by blast
  have "uint (pDstC_i32 a' (m * strideC_i32 a + col)) = exact_i32 a m col mod 2 ^ 32 \<and>
         (- (2 ^ 31) \<le> exact_i32 a m col \<and> exact_i32 a m col < 2 ^ 31 \<longrightarrow>
            sint (pDstC_i32 a' (m * strideC_i32 a + col)) = exact_i32 a m col)"
    if "m < M_i32 a" "col < O_i32 a" for m col
    by (simp only: out [OF that] uint_wrap) (simp add: sint_fits)
  with run show "\<exists>a'. run_cores plp_mat_mult_trans_stride_i32p_xpulpv2 cs a = Some a' \<and>
      (\<forall>m col. m < M_i32 a \<longrightarrow> col < O_i32 a \<longrightarrow>
         uint (pDstC_i32 a' (m * strideC_i32 a + col)) = exact_i32 a m col mod 2 ^ 32 \<and>
         (- (2 ^ 31) \<le> exact_i32 a m col \<and> exact_i32 a m col < 2 ^ 31 \<longrightarrow>
            sint (pDstC_i32 a' (m * strideC_i32 a + col)) = exact_i32 a m col))"
    by blast
next
  from result_c16 [OF assms(4-6)] obtain b'
    where run: "run_cores_ub plp_mat_mult_trans_cmplx_stride_i16p_xpulpv2 ds b = Some (Inr b')"
      and out: "\<And>m col. m < M_c16 b \<Longrightarrow> col < O_c16 b \<Longrightarrow>
         pDstC_c16 b' ((m * strideC_c16 b + col) * 2) = word_of_int (exact_re_c16 b m col) \<and>
         pDstC_c16 b' ((m * strideC_c16 b + col) * 2 + 1) = word_of_int (exact_im_c16 b m col)"
    unfolding re_c16_exact im_c16_exact by blast
  have "uint (pDstC_c16 b' ((m * strideC_c16 b + col) * 2)) = exact_re_c16 b m col mod 2 ^ 32 \<and>
         uint (pDstC_c16 b' ((m * strideC_c16 b + col) * 2 + 1)) = exact_im_c16 b m col mod 2 ^ 32 \<and>
         (- (2 ^ 31) \<le> exact_re_c16 b m col \<and> exact_re_c16 b m col < 2 ^ 31 \<longrightarrow>
            sint (pDstC_c16 b' ((m * strideC_c16 b + col) * 2)) = exact_re_c16 b m col) \<and>
         (- (2 ^ 31) \<le> exact_im_c16 b m col \<and> exact_im_c16 b m col < 2 ^ 31 \<longrightarrow>
            sint (pDstC_c16 b' ((m * strideC_c16 b + col) * 2 + 1)) = exact_im_c16 b m col)"
    if "m < M_c16 b" "col < O_c16 b" for m col
    by (simp only: out [OF that] uint_wrap) (simp add: sint_fits)
  with run show "\<exists>b'. run_cores_ub plp_mat_mult_trans_cmplx_stride_i16p_xpulpv2 ds b = Some (Inr b') \<and>
      (\<forall>m col. m < M_c16 b \<longrightarrow> col < O_c16 b \<longrightarrow>
         uint (pDstC_c16 b' ((m * strideC_c16 b + col) * 2)) = exact_re_c16 b m col mod 2 ^ 32 \<and>
         uint (pDstC_c16 b' ((m * strideC_c16 b + col) * 2 + 1)) = exact_im_c16 b m col mod 2 ^ 32 \<and>
         (- (2 ^ 31) \<le> exact_re_c16 b m col \<and> exact_re_c16 b m col < 2 ^ 31 \<longrightarrow>
            sint (pDstC_c16 b' ((m * strideC_c16 b + col) * 2)) = exact_re_c16 b m col) \<and>
         (- (2 ^ 31) \<le> exact_im_c16 b m col \<and> exact_im_c16 b m col < 2 ^ 31 \<longrightarrow>
            sint (pDstC_c16 b' ((m * strideC_c16 b + col) * 2 + 1)) = exact_im_c16 b m col))"
    by blast
next
  fix core_id A B
  have "counter_ok (M_i32 a) (nPE_i32 a)"
    using assms(1,2) by (simp add: valid_i32_def counter_ok_valid)
  then show "\<exists>r r2.
        plp_mat_mult_trans_stride_i32p_xpulpv2 core_id a = Some r \<and>
        plp_mat_mult_trans_stride_i32p_xpulpv2 core_id (a\<lparr>pSrcA_i32 := A, pSrcB_i32 := B\<rparr>) = Some r2 \<and>
        snd r2 = snd r"
    by (rule accesses_i32)
next
  fix core_id A B
  have ok: "counter_ok (M_c16 b) (nPE_c16 b)"
    and N: "unat (N_c16 b) < 2 ^ 31" and O: "unat (O_c16 b) < 2 ^ 31"
    using assms(4,5) by (simp_all add: valid_c16_def counter_ok_valid)
  show "\<exists>r r2.
        plp_mat_mult_trans_cmplx_stride_i16p_xpulpv2 core_id b = Some (Inr r) \<and>
        plp_mat_mult_trans_cmplx_stride_i16p_xpulpv2 core_id (b\<lparr>pSrcA_c16 := A, pSrcB_c16 := B\<rparr>)
          = Some (Inr r2) \<and>
        snd r2 = snd r"
    by (rule accesses_c16 [OF N O ok])
qed

theorem accumulators_wrap_witness:
  "valid_i32 example_i32 \<and> 0 < nPE_i32 example_i32 \<and> set [1, 0] = {c. c < nPE_i32 example_i32} \<and>
   valid_c16 example_c16 \<and> 0 < nPE_c16 example_c16 \<and> set [0] = {c. c < nPE_c16 example_c16} \<and>
   exact_i32 example_i32 1 0 = 15 \<and>
   exact_re_c16 example_c16 0 0 = - 5 \<and> exact_im_c16 example_c16 0 0 = 10 \<and>
   (\<exists>a'. run_cores plp_mat_mult_trans_stride_i32p_xpulpv2 [1, 0] example_i32 = Some a' \<and>
      uint (pDstC_i32 a' 2) = 15 \<and> sint (pDstC_i32 a' 2) = 15) \<and>
   (\<exists>b'. run_cores_ub plp_mat_mult_trans_cmplx_stride_i16p_xpulpv2 [0] example_c16 = Some (Inr b') \<and>
      uint (pDstC_c16 b' 0) = 4294967291 \<and> sint (pDstC_c16 b' 0) = - 5 \<and>
      uint (pDstC_c16 b' 1) = 10 \<and> sint (pDstC_c16 b' 1) = 10) \<and>
   (\<exists>r r2. plp_mat_mult_trans_stride_i32p_xpulpv2 1 example_i32 = Some r \<and>
      plp_mat_mult_trans_stride_i32p_xpulpv2 1
        (example_i32\<lparr>pSrcA_i32 := (\<lambda>i. 0x7FFFFFFF), pSrcB_i32 := (\<lambda>i. 4)\<rparr>) = Some r2 \<and>
      snd r2 = snd r) \<and>
   (\<exists>r r2. plp_mat_mult_trans_cmplx_stride_i16p_xpulpv2 0 example_c16 = Some (Inr r) \<and>
      plp_mat_mult_trans_cmplx_stride_i16p_xpulpv2 0
        (example_c16\<lparr>pSrcA_c16 := (\<lambda>i. 0x8000), pSrcB_c16 := (\<lambda>i. 0x8000)\<rparr>) = Some (Inr r2) \<and>
      snd r2 = snd r)"
proof -
  have v: "valid_i32 example_i32" "valid_c16 example_c16"
    by (simp_all add: valid_i32_def example_i32_def valid_c16_def example_c16_def)
  have p: "0 < nPE_i32 example_i32" "0 < nPE_c16 example_c16"
    by (simp_all add: example_i32_def example_c16_def)
  have s: "set [1, 0] = {c. c < nPE_i32 example_i32}" "set [0] = {c. c < nPE_c16 example_c16}"
    by (auto simp: example_i32_def less_2_u32 example_c16_def less_1_u32)
  have e: "exact_i32 example_i32 1 0 = 15"
    "exact_re_c16 example_c16 0 0 = - 5" "exact_im_c16 example_c16 0 0 = 10"
    by (simp_all add: exact_i32_def example_i32_def sum_upt_2
        exact_re_c16_def exact_im_c16_def example_c16_def)
  note T = accumulators_wrap [OF v(1) p(1) s(1) v(2) p(2) s(2)]
  from T [THEN conjunct1] obtain a'
    where ra: "run_cores plp_mat_mult_trans_stride_i32p_xpulpv2 [1, 0] example_i32 = Some a'"
      and oa: "\<forall>m col. m < M_i32 example_i32 \<longrightarrow> col < O_i32 example_i32 \<longrightarrow>
         uint (pDstC_i32 a' (m * strideC_i32 example_i32 + col)) = exact_i32 example_i32 m col mod 2 ^ 32 \<and>
         (- (2 ^ 31) \<le> exact_i32 example_i32 m col \<and> exact_i32 example_i32 m col < 2 ^ 31 \<longrightarrow>
            sint (pDstC_i32 a' (m * strideC_i32 example_i32 + col)) = exact_i32 example_i32 m col)"
    by (elim exE conjE)
  have "(1 :: u32) < M_i32 example_i32" "(0 :: u32) < O_i32 example_i32"
    "1 * strideC_i32 example_i32 + 0 = 2"
    by (simp_all add: example_i32_def)
  with oa [rule_format, of 1 0] e(1)
  have za: "uint (pDstC_i32 a' 2) = 15 \<and> sint (pDstC_i32 a' 2) = 15"
    by simp
  from T [THEN conjunct2, THEN conjunct1] obtain b'
    where rb: "run_cores_ub plp_mat_mult_trans_cmplx_stride_i16p_xpulpv2 [0] example_c16 = Some (Inr b')"
      and ob: "\<forall>m col. m < M_c16 example_c16 \<longrightarrow> col < O_c16 example_c16 \<longrightarrow>
         uint (pDstC_c16 b' ((m * strideC_c16 example_c16 + col) * 2))
           = exact_re_c16 example_c16 m col mod 2 ^ 32 \<and>
         uint (pDstC_c16 b' ((m * strideC_c16 example_c16 + col) * 2 + 1))
           = exact_im_c16 example_c16 m col mod 2 ^ 32 \<and>
         (- (2 ^ 31) \<le> exact_re_c16 example_c16 m col \<and> exact_re_c16 example_c16 m col < 2 ^ 31 \<longrightarrow>
            sint (pDstC_c16 b' ((m * strideC_c16 example_c16 + col) * 2)) = exact_re_c16 example_c16 m col) \<and>
         (- (2 ^ 31) \<le> exact_im_c16 example_c16 m col \<and> exact_im_c16 example_c16 m col < 2 ^ 31 \<longrightarrow>
            sint (pDstC_c16 b' ((m * strideC_c16 example_c16 + col) * 2 + 1)) = exact_im_c16 example_c16 m col)"
    by (elim exE conjE)
  have "(0 :: u32) < M_c16 example_c16" "(0 :: u32) < O_c16 example_c16"
    "(0 * strideC_c16 example_c16 + 0) * 2 = 0"
    by (simp_all add: example_c16_def)
  with ob [rule_format, of 0 0] e(2,3)
  have zb: "uint (pDstC_c16 b' 0) = 4294967291 \<and> sint (pDstC_c16 b' 0) = - 5 \<and>
      uint (pDstC_c16 b' 1) = 10 \<and> sint (pDstC_c16 b' 1) = 10"
    by simp
  note A = T [THEN conjunct2, THEN conjunct2, THEN conjunct1, rule_format,
      where core_id = 1 and A = "\<lambda>i. 0x7FFFFFFF" and B = "\<lambda>i. 4"]
  note B = T [THEN conjunct2, THEN conjunct2, THEN conjunct2, rule_format,
      where core_id = 0 and A = "\<lambda>i. 0x8000" and B = "\<lambda>i. 0x8000"]
  from ra za have X: "\<exists>a'. run_cores plp_mat_mult_trans_stride_i32p_xpulpv2 [1, 0] example_i32 = Some a' \<and>
      uint (pDstC_i32 a' 2) = 15 \<and> sint (pDstC_i32 a' 2) = 15"
    by blast
  from rb zb have Y: "\<exists>b'. run_cores_ub plp_mat_mult_trans_cmplx_stride_i16p_xpulpv2 [0] example_c16 = Some (Inr b') \<and>
      uint (pDstC_c16 b' 0) = 4294967291 \<and> sint (pDstC_c16 b' 0) = - 5 \<and>
      uint (pDstC_c16 b' 1) = 10 \<and> sint (pDstC_c16 b' 1) = 10"
    by blast
  from v p s e X Y A B show ?thesis
    by (intro conjI)
qed

theorem accumulators_wrap_counterexample:
  "N_i32 overflow_i32 = 1 \<and>
   exact_i32 overflow_i32 0 0 = 8589934588 \<and>
   map_option (\<lambda>a'. sint (pDstC_i32 a' 0))
     (run_cores plp_mat_mult_trans_stride_i32p_xpulpv2 [0] overflow_i32) = Some (- 4) \<and>
   N_c16 overflow_c16 = 1 \<and>
   exact_im_c16 overflow_c16 0 0 = 2147483648 \<and>
   map_option (map_sum id (\<lambda>b'. sint (pDstC_c16 b' 1)))
     (run_cores_ub plp_mat_mult_trans_cmplx_stride_i16p_xpulpv2 [0] overflow_c16)
     = Some (Inr (- 2147483648))"
proof -
  have 1: "exact_i32 overflow_i32 0 0 = 8589934588"
    by (simp add: exact_i32_def overflow_i32_def)
  have 2: "map_option (\<lambda>a'. sint (pDstC_i32 a' 0))
     (run_cores plp_mat_mult_trans_stride_i32p_xpulpv2 [0] overflow_i32) = Some (- 4)"
    by (simp add: plp_mat_mult_trans_stride_i32p_xpulpv2_def overflow_i32_def stride_loop.simps
        row_i32_def for_loop.simps elem_i32_def mac_i32_def)
  have 3: "exact_im_c16 overflow_c16 0 0 = 2147483648"
    by (simp add: exact_im_c16_def overflow_c16_def)
  have 4: "map_option (map_sum id (\<lambda>b'. sint (pDstC_c16 b' 1)))
     (run_cores_ub plp_mat_mult_trans_cmplx_stride_i16p_xpulpv2 [0] overflow_c16)
     = Some (Inr (- 2147483648))"
    by (simp add: plp_mat_mult_trans_cmplx_stride_i16p_xpulpv2_def overflow_c16_def
        stride_loop.simps round_c16_def row_c16_def for_loop_int.simps elem_c16_def mac_c16_def)
  have 5: "N_i32 overflow_i32 = 1" "N_c16 overflow_c16 = 1"
    by (simp_all add: overflow_i32_def overflow_c16_def)
  from 1 2 3 4 5 show ?thesis
    by (intro conjI)
qed

subsection \<open>Dispatch\<close>

text \<open>
  C7 (amended). \<open>plp_dot_prod_i32s\<close> is total and never stops with an error: it forwards
  to the RV32IM kernel when the cluster identity equals \<open>ARCHI_FC_CID\<close> and to the XPULPV2
  kernel for every other identity. Which kernel runs depends on the cluster identity
  only, not on the vectors, the block size or what the kernels compute.
\<close>

theorem dot_prod_i32s_dispatch:
  "plp_dot_prod_i32s cid fc rv xp pSrcA pSrcB blockSize =
     Inr (if cid = fc then (RV32IM, rv pSrcA pSrcB blockSize)
          else (XPULPV2, xp pSrcA pSrcB blockSize)) \<and>
   plp_dot_prod_i32s cid fc rv xp pSrcA pSrcB blockSize \<noteq> Inl Contract_violation \<and>
   map_sum id fst (plp_dot_prod_i32s cid fc rv xp pSrcA pSrcB blockSize) =
     map_sum id fst (plp_dot_prod_i32s cid fc rv' xp' pSrcA' pSrcB' blockSize')"
  by (simp add: plp_dot_prod_i32s_def)

theorem dot_prod_i32s_dispatch_witness:
  "plp_dot_prod_i32s 32 32 (\<lambda>A B n. A 0 * B 0) (\<lambda>A B n. 0) (\<lambda>i. 2) (\<lambda>i. 3) 1 = Inr (RV32IM, 6) \<and>
   plp_dot_prod_i32s 0 32 (\<lambda>A B n. A 0 * B 0) (\<lambda>A B n. 0) (\<lambda>i. 2) (\<lambda>i. 3) 1 = Inr (XPULPV2, 0)"
  using dot_prod_i32s_dispatch [of 32 32 "\<lambda>A B n. A 0 * B 0" "\<lambda>A B n. 0" "\<lambda>i. 2" "\<lambda>i. 3" 1]
    dot_prod_i32s_dispatch [of 0 32 "\<lambda>A B n. A 0 * B 0" "\<lambda>A B n. 0" "\<lambda>i. 2" "\<lambda>i. 3" 1]
  by simp

theorem dot_prod_i32s_dispatch_counterexample:
  "(7 :: u32) \<noteq> 32 \<and>
   plp_dot_prod_i32s 7 32 (\<lambda>A B n. 1) (\<lambda>A B n. 2) (\<lambda>i. 0) (\<lambda>i. 0) 0 = Inr (XPULPV2, 2) \<and>
   plp_dot_prod_i32s 7 32 (\<lambda>A B n. 1) (\<lambda>A B n. 2) (\<lambda>i. 0) (\<lambda>i. 0) 0 \<noteq> Inl Contract_violation"
  by (simp add: plp_dot_prod_i32s_def)

end
